theory Spec2Isabelle
  imports Complex_Main
begin

section \<open>Symbolic expressions and the algebra engine\<close>

text \<open>
  The module \<open>gaussian_integral.py\<close> builds symbolic expressions and hands them to a
  computer-algebra engine. Symbols are identified by their names. The expressions the
  module itself writes are products, sines, cosines, an exponential, a square, a square
  root and the constants \<open>0\<close>, \<open>2\<close> and \<open>pi\<close>; sums, negations and reciprocals
  appear in what the engine returns.
\<close>

datatype expr =
    Symbol string
  | Integer int
  | PiC
  | Add expr expr
  | Mul expr expr
  | Neg expr
  | PowN expr nat
  | Sin expr
  | Cos expr
  | Exp expr
  | Sqrt expr
  | Inv expr

type_synonym env = "string \<Rightarrow> real"

fun eval :: "env \<Rightarrow> expr \<Rightarrow> real" where
  "eval \<rho> (Symbol s) = \<rho> s"
| "eval \<rho> (Integer k) = real_of_int k"
| "eval \<rho> PiC = pi"
| "eval \<rho> (Add a b) = eval \<rho> a + eval \<rho> b"
| "eval \<rho> (Mul a b) = eval \<rho> a * eval \<rho> b"
| "eval \<rho> (Neg a) = - eval \<rho> a"
| "eval \<rho> (PowN a k) = eval \<rho> a ^ k"
| "eval \<rho> (Sin a) = sin (eval \<rho> a)"
| "eval \<rho> (Cos a) = cos (eval \<rho> a)"
| "eval \<rho> (Exp a) = exp (eval \<rho> a)"
| "eval \<rho> (Sqrt a) = sqrt (eval \<rho> a)"
| "eval \<rho> (Inv a) = inverse (eval \<rho> a)"

text \<open>The upper end of an integration range is an expression or \<open>oo\<close>.\<close>

datatype bound = Fin expr | Oo

type_synonym limit = "string \<times> expr \<times> bound"

text \<open>
  The engine is everything \<open>from sympy import *\<close> supplies and the module calls:
  differentiation (inside \<open>Matrix.jacobian\<close>), \<open>Matrix.det\<close>, \<open>simplify\<close> and
  \<open>integrate\<close>. It is a parameter of every operation that uses it.
\<close>

record engine =
  diff :: "expr \<Rightarrow> string \<Rightarrow> expr"
  det :: "expr list list \<Rightarrow> expr"
  simplify :: "expr \<Rightarrow> expr"
  integrate :: "expr \<Rightarrow> limit list \<Rightarrow> expr"

section \<open>The class \<open>GaussianIntegral\<close>\<close>

text \<open>
  The exceptions: \<open>ValueError\<close> is raised by \<open>__init__\<close>, \<open>IndexError\<close> by an index out of
  range, \<open>AttributeError\<close> and \<open>TypeError\<close> by an attribute, a method or an index asked of
  an object that has none.
\<close>

datatype error = ValueError | IndexError | AttributeError | TypeError

record gaussian_integral =
  n :: int
  r :: string
  phis :: "string list"

text \<open>Python's \<open>str\<close> of a non-negative integer: its decimal digits.\<close>

definition digit_char :: "nat \<Rightarrow> char" where
  "digit_char d = ''0123456789'' ! d"

fun str :: "nat \<Rightarrow> string" where
  "str k = (if k < 10 then [digit_char k] else str (k div 10) @ [digit_char (k mod 10)])"

declare str.simps [simp del]

text \<open>
  \<open>symbols('phi0:' + str(n-1))\<close> makes the symbols \<open>phi0\<close>, ..., \<open>phi(n-2)\<close>, always as
  a tuple.
\<close>

definition phi_name :: "nat \<Rightarrow> string" where
  "phi_name k = ''phi'' @ str k"

definition symbols_phi0 :: "nat \<Rightarrow> string list" where
  "symbols_phi0 k = map phi_name [0..<k]"

definition init :: "int \<Rightarrow> error + gaussian_integral" where
  "init k =
     (if k < 1 then Inl ValueError
      else Inr \<lparr> n = k, r = ''r'',
                 phis = (if k = 1 then [''phi0''] else symbols_phi0 (nat (k - 1))) \<rparr>)"

text \<open>
  \<open>_cartesian_to_spherical\<close>: the loop \<open>for i in range(1, self.n - 1)\<close> reads
  \<open>x_coords[i]\<close> and \<open>self.phis[i]\<close>; an index out of range raises \<open>IndexError\<close>.
\<close>

fun spherical_loop :: "string list \<Rightarrow> nat list \<Rightarrow> expr list \<Rightarrow> error + expr list" where
  "spherical_loop ps [] x_coords = Inr x_coords"
| "spherical_loop ps (i # is) x_coords =
     (if i < length x_coords \<and> i < length ps then
        (let old = x_coords ! i
         in spherical_loop ps is
              (x_coords[i := Mul old (Cos (Symbol (ps ! i)))] @ [Mul old (Sin (Symbol (ps ! i)))]))
      else Inl IndexError)"

definition cartesian_to_spherical :: "gaussian_integral \<Rightarrow> error + expr list" where
  "cartesian_to_spherical self =
     (case phis self of
        [] \<Rightarrow> Inl IndexError
      | phi0 # _ \<Rightarrow>
          spherical_loop (phis self) [1..<nat (n self - 1)]
            [Mul (Symbol (r self)) (Cos (Symbol phi0)), Mul (Symbol (r self)) (Sin (Symbol phi0))])"

text \<open>
  \<open>jacobian\<close>: \<open>syms\<close> is \<open>r\<close> followed by the angular symbols; the row of a coordinate
  holds its derivative with respect to each of them.
\<close>

definition jacobian :: "engine \<Rightarrow> gaussian_integral \<Rightarrow> error + expr list list" where
  "jacobian E self =
     (let syms = r self # phis self
      in case cartesian_to_spherical self of
           Inl e \<Rightarrow> Inl e
         | Inr x_coords \<Rightarrow> Inr (map (\<lambda>x. map (\<lambda>s. diff E x s) syms) x_coords))"

definition jacobian_det :: "engine \<Rightarrow> gaussian_integral \<Rightarrow> error + expr" where
  "jacobian_det E self =
     (case jacobian E self of
        Inl e \<Rightarrow> Inl e
      | Inr J \<Rightarrow> Inr (simplify E (det E J)))"

text \<open>
  \<open>doit\<close>: the limits are built first (\<open>self.phis[-1]\<close> raises on an empty tuple), then
  the integrand, then the engine integrates; for \<open>n = 1\<close> the result is square-rooted.
\<close>

definition limits_of_int :: "gaussian_integral \<Rightarrow> error + limit list" where
  "limits_of_int self =
     (if phis self = [] then Inl IndexError
      else Inr ((r self, Integer 0, Oo)
                # (last (phis self), Integer 0, Fin (Mul (Integer 2) PiC))
                # map (\<lambda>phi. (phi, Integer 0, Fin PiC)) (butlast (phis self))))"

definition integrand :: "engine \<Rightarrow> gaussian_integral \<Rightarrow> error + expr" where
  "integrand E self =
     (case jacobian_det E self of
        Inl e \<Rightarrow> Inl e
      | Inr d \<Rightarrow> Inr (Mul (Exp (Neg (PowN (Symbol (r self)) 2))) d))"

definition doit :: "engine \<Rightarrow> gaussian_integral \<Rightarrow> error + expr" where
  "doit E self =
     (case limits_of_int self of
        Inl e \<Rightarrow> Inl e
      | Inr limits \<Rightarrow>
          (case integrand E self of
             Inl e \<Rightarrow> Inl e
           | Inr f \<Rightarrow>
               (let int = integrate E f limits
                in if n self = 1 then Inr (Sqrt int) else Inr int)))"

text \<open>
  A caller constructs an instance and then queries it; \<open>construct_and\<close> is
  \<open>GaussianIntegral(k).op()\<close>.
\<close>

definition construct_and :: "int \<Rightarrow> (gaussian_integral \<Rightarrow> error + 'a) \<Rightarrow> error + 'a" where
  "construct_and k op = (case init k of Inl e \<Rightarrow> Inl e | Inr self \<Rightarrow> op self)"

section \<open>The methods on a store of objects\<close>

text \<open>
  Python objects live in a store and are referred to by their address. An instance holds
  its three attributes; \<open>n\<close> is a number, \<open>r\<close> a symbol and \<open>phis\<close> a tuple, all immutable
  values. The lists the methods build (\<open>x_coords\<close>, \<open>syms\<close>, \<open>limits_of_int\<close>) are objects
  of their own, allocated at a fresh address and updated in place. A method is given the
  address of \<open>self\<close> and transforms the store.
\<close>

type_synonym addr = nat

datatype object =
    Instance gaussian_integral
  | ExprList "expr list"
  | SymList "string list"
  | LimitList "limit list"

type_synonym store = "object list"

type_synonym 'a action = "store \<Rightarrow> (error + 'a) \<times> store"

definition return_st :: "'a \<Rightarrow> 'a action" where
  "return_st v \<sigma> = (Inr v, \<sigma>)"

definition bind_st :: "'a action \<Rightarrow> ('a \<Rightarrow> 'b action) \<Rightarrow> 'b action" where
  "bind_st m f \<sigma> = (case m \<sigma> of (Inl e, \<sigma>') \<Rightarrow> (Inl e, \<sigma>') | (Inr v, \<sigma>') \<Rightarrow> f v \<sigma>')"

definition alloc :: "object \<Rightarrow> addr action" where
  "alloc obj \<sigma> = (Inr (length \<sigma>), \<sigma> @ [obj])"

text \<open>
  \<open>self.n\<close>, \<open>self.r\<close>, \<open>self.phis\<close>: reading an attribute; \<open>ps[i]\<close> and \<open>ps[-1]\<close> on a
  tuple.
\<close>

definition attribute :: "(gaussian_integral \<Rightarrow> 'a) \<Rightarrow> addr \<Rightarrow> 'a action" where
  "attribute f a \<sigma> =
     (if a < length \<sigma> then
        (case \<sigma> ! a of Instance i \<Rightarrow> (Inr (f i), \<sigma>) | _ \<Rightarrow> (Inl AttributeError, \<sigma>))
      else (Inl AttributeError, \<sigma>))"

definition index :: "'a list \<Rightarrow> nat \<Rightarrow> 'a action" where
  "index ps i \<sigma> = (if i < length ps then (Inr (ps ! i), \<sigma>) else (Inl IndexError, \<sigma>))"

definition index_last :: "'a list \<Rightarrow> 'a action" where
  "index_last ps \<sigma> = (if ps = [] then (Inl IndexError, \<sigma>) else (Inr (last ps), \<sigma>))"

text \<open>
  On a list of expressions: \<open>x[i]\<close>, \<open>x[i] = v\<close>, \<open>x.append(v)\<close> and reading the whole list
  (\<open>Matrix(x)\<close>).
\<close>

definition exprs_at :: "addr \<Rightarrow> store \<Rightarrow> expr list option" where
  "exprs_at x \<sigma> =
     (if x < length \<sigma> then (case \<sigma> ! x of ExprList xs \<Rightarrow> Some xs | _ \<Rightarrow> None) else None)"

definition getitem :: "addr \<Rightarrow> nat \<Rightarrow> expr action" where
  "getitem x i \<sigma> =
     (case exprs_at x \<sigma> of
        None \<Rightarrow> (Inl TypeError, \<sigma>)
      | Some xs \<Rightarrow> if i < length xs then (Inr (xs ! i), \<sigma>) else (Inl IndexError, \<sigma>))"

definition setitem :: "addr \<Rightarrow> nat \<Rightarrow> expr \<Rightarrow> unit action" where
  "setitem x i v \<sigma> =
     (case exprs_at x \<sigma> of
        None \<Rightarrow> (Inl TypeError, \<sigma>)
      | Some xs \<Rightarrow>
          if i < length xs then (Inr (), \<sigma>[x := ExprList (xs[i := v])])
          else (Inl IndexError, \<sigma>))"

definition append_expr :: "addr \<Rightarrow> expr \<Rightarrow> unit action" where
  "append_expr x v \<sigma> =
     (case exprs_at x \<sigma> of
        None \<Rightarrow> (Inl AttributeError, \<sigma>)
      | Some xs \<Rightarrow> (Inr (), \<sigma>[x := ExprList (xs @ [v])]))"

definition read_exprs :: "addr \<Rightarrow> expr list action" where
  "read_exprs x \<sigma> =
     (case exprs_at x \<sigma> of None \<Rightarrow> (Inl TypeError, \<sigma>) | Some xs \<Rightarrow> (Inr xs, \<sigma>))"

text \<open>On a list of symbols: \<open>syms.insert(i, v)\<close> and reading the whole list.\<close>

definition syms_at :: "addr \<Rightarrow> store \<Rightarrow> string list option" where
  "syms_at x \<sigma> =
     (if x < length \<sigma> then (case \<sigma> ! x of SymList xs \<Rightarrow> Some xs | _ \<Rightarrow> None) else None)"

definition insert_sym :: "addr \<Rightarrow> nat \<Rightarrow> string \<Rightarrow> unit action" where
  "insert_sym x i v \<sigma> =
     (case syms_at x \<sigma> of
        None \<Rightarrow> (Inl AttributeError, \<sigma>)
      | Some xs \<Rightarrow> (Inr (), \<sigma>[x := SymList (take i xs @ v # drop i xs)]))"

definition read_syms :: "addr \<Rightarrow> string list action" where
  "read_syms x \<sigma> =
     (case syms_at x \<sigma> of None \<Rightarrow> (Inl TypeError, \<sigma>) | Some xs \<Rightarrow> (Inr xs, \<sigma>))"

text \<open>On a list of limits: \<open>limits.append(v)\<close> and unpacking it (\<open>*limits\<close>).\<close>

definition limits_at :: "addr \<Rightarrow> store \<Rightarrow> limit list option" where
  "limits_at x \<sigma> =
     (if x < length \<sigma> then (case \<sigma> ! x of LimitList xs \<Rightarrow> Some xs | _ \<Rightarrow> None) else None)"

definition append_limit :: "addr \<Rightarrow> limit \<Rightarrow> unit action" where
  "append_limit x v \<sigma> =
     (case limits_at x \<sigma> of
        None \<Rightarrow> (Inl AttributeError, \<sigma>)
      | Some xs \<Rightarrow> (Inr (), \<sigma>[x := LimitList (xs @ [v])]))"

definition read_limits :: "addr \<Rightarrow> limit list action" where
  "read_limits x \<sigma> =
     (case limits_at x \<sigma> of None \<Rightarrow> (Inl TypeError, \<sigma>) | Some xs \<Rightarrow> (Inr xs, \<sigma>))"

text \<open>
  \<open>GaussianIntegral(k)\<close>: \<open>__init__\<close> raises or sets the three attributes of a new object.
\<close>

definition new :: "int \<Rightarrow> addr action" where
  "new k \<sigma> = (case init k of Inl e \<Rightarrow> (Inl e, \<sigma>) | Inr obj \<Rightarrow> alloc (Instance obj) \<sigma>)"

text \<open>
  The methods, statement by statement. Every read of \<open>self.phis\<close>, \<open>self.r\<close> and \<open>self.n\<close>
  goes to the store as it is at that moment.
\<close>

fun spherical_loop_st :: "addr \<Rightarrow> addr \<Rightarrow> nat list \<Rightarrow> unit action" where
  "spherical_loop_st self x_coords [] = return_st ()"
| "spherical_loop_st self x_coords (i # is) =
     bind_st (getitem x_coords i) (\<lambda>old.
     bind_st (attribute phis self) (\<lambda>ps.
     bind_st (index ps i) (\<lambda>phi.
     bind_st (setitem x_coords i (Mul old (Cos (Symbol phi)))) (\<lambda>_.
     bind_st (attribute phis self) (\<lambda>ps'.
     bind_st (index ps' i) (\<lambda>phi'.
     bind_st (append_expr x_coords (Mul old (Sin (Symbol phi')))) (\<lambda>_.
     spherical_loop_st self x_coords is)))))))"

definition cartesian_to_spherical_st :: "addr \<Rightarrow> expr list action" where
  "cartesian_to_spherical_st self =
     bind_st (attribute r self) (\<lambda>r0.
     bind_st (attribute phis self) (\<lambda>ps.
     bind_st (index ps 0) (\<lambda>phi0.
     bind_st (attribute r self) (\<lambda>r1.
     bind_st (attribute phis self) (\<lambda>ps'.
     bind_st (index ps' 0) (\<lambda>phi0'.
     bind_st (alloc (ExprList [Mul (Symbol r0) (Cos (Symbol phi0)),
                               Mul (Symbol r1) (Sin (Symbol phi0'))])) (\<lambda>x_coords.
     bind_st (attribute n self) (\<lambda>k.
     bind_st (spherical_loop_st self x_coords [1..<nat (k - 1)]) (\<lambda>_.
     read_exprs x_coords)))))))))"

definition jacobian_st :: "engine \<Rightarrow> addr \<Rightarrow> expr list list action" where
  "jacobian_st E self =
     bind_st (attribute phis self) (\<lambda>ps.
     bind_st (alloc (SymList ps)) (\<lambda>syms.
     bind_st (attribute r self) (\<lambda>r0.
     bind_st (insert_sym syms 0 r0) (\<lambda>_.
     bind_st (cartesian_to_spherical_st self) (\<lambda>x_coords.
     bind_st (read_syms syms) (\<lambda>ss.
     return_st (map (\<lambda>x. map (\<lambda>s. diff E x s) ss) x_coords)))))))"

definition jacobian_det_st :: "engine \<Rightarrow> addr \<Rightarrow> expr action" where
  "jacobian_det_st E self =
     bind_st (jacobian_st E self) (\<lambda>J. return_st (simplify E (det E J)))"

fun append_limits :: "addr \<Rightarrow> string list \<Rightarrow> unit action" where
  "append_limits limits [] = return_st ()"
| "append_limits limits (phi # rest) =
     bind_st (append_limit limits (phi, Integer 0, Fin PiC)) (\<lambda>_. append_limits limits rest)"

definition doit_st :: "engine \<Rightarrow> addr \<Rightarrow> expr action" where
  "doit_st E self =
     bind_st (attribute r self) (\<lambda>r0.
     bind_st (attribute phis self) (\<lambda>ps.
     bind_st (index_last ps) (\<lambda>phi_last.
     bind_st (alloc (LimitList [(r0, Integer 0, Oo),
                                (phi_last, Integer 0, Fin (Mul (Integer 2) PiC))])) (\<lambda>limits.
     bind_st (attribute phis self) (\<lambda>ps'.
     bind_st (append_limits limits (butlast ps')) (\<lambda>_.
     bind_st (attribute r self) (\<lambda>r1.
     bind_st (jacobian_det_st E self) (\<lambda>d.
     bind_st (read_limits limits) (\<lambda>ls.
     bind_st (return_st (integrate E (Mul (Exp (Neg (PowN (Symbol r1) 2))) d) ls)) (\<lambda>int.
     bind_st (attribute n self) (\<lambda>k.
     return_st (if k = 1 then Sqrt int else int))))))))))))"

text \<open>
  A caller queries an instance any number of times; an exception ends a query, not the
  sequence. \<open>answer_of\<close> is what the query answers when computed from the attributes alone.
\<close>

datatype query = Jacobian | Jacobian_det | Doit

datatype answer = Matrix "expr list list" | Value expr

fun perform :: "engine \<Rightarrow> addr \<Rightarrow> query \<Rightarrow> answer action" where
  "perform E self Jacobian = bind_st (jacobian_st E self) (\<lambda>J. return_st (Matrix J))"
| "perform E self Jacobian_det = bind_st (jacobian_det_st E self) (\<lambda>d. return_st (Value d))"
| "perform E self Doit = bind_st (doit_st E self) (\<lambda>v. return_st (Value v))"

fun perform_all :: "engine \<Rightarrow> addr \<Rightarrow> query list \<Rightarrow> store \<Rightarrow> (error + answer) list \<times> store" where
  "perform_all E self [] \<sigma> = ([], \<sigma>)"
| "perform_all E self (q # qs) \<sigma> =
     (case perform E self q \<sigma> of
        (res, \<sigma>') \<Rightarrow> (case perform_all E self qs \<sigma>' of (rs, \<sigma>'') \<Rightarrow> (res # rs, \<sigma>'')))"

fun answer_of :: "engine \<Rightarrow> gaussian_integral \<Rightarrow> query \<Rightarrow> error + answer" where
  "answer_of E self Jacobian = (case jacobian E self of Inl e \<Rightarrow> Inl e | Inr J \<Rightarrow> Inr (Matrix J))"
| "answer_of E self Jacobian_det =
     (case jacobian_det E self of Inl e \<Rightarrow> Inl e | Inr d \<Rightarrow> Inr (Value d))"
| "answer_of E self Doit = (case doit E self of Inl e \<Rightarrow> Inl e | Inr v \<Rightarrow> Inr (Value v))"

section \<open>The parametrization as the specification words it\<close>

text \<open>
  Start from \<open>[r cos phi0, r sin phi0]\<close>; each further angle replaces the last coordinate
  \<open>old\<close> by \<open>old cos phi\<close> and appends \<open>old sin phi\<close>.
\<close>

definition split_last :: "string \<Rightarrow> expr list \<Rightarrow> expr list" where
  "split_last phi xs =
     butlast xs @ [Mul (last xs) (Cos (Symbol phi)), Mul (last xs) (Sin (Symbol phi))]"

definition base_coords :: "expr list" where
  "base_coords =
     [Mul (Symbol ''r'') (Cos (Symbol ''phi0'')), Mul (Symbol ''r'') (Sin (Symbol ''phi0''))]"

definition parametrization :: "nat \<Rightarrow> expr list" where
  "parametrization k = foldl (\<lambda>xs i. split_last (phi_name i) xs) base_coords [1..<k - 1]"

section \<open>What the engine is expected to compute\<close>

text \<open>
  An expression denotes a real function of the values of its symbols. Expressions without
  square roots and reciprocals are differentiable everywhere; on them the engine's
  derivative has to be the partial derivative.
\<close>

fun smooth :: "expr \<Rightarrow> bool" where
  "smooth (Symbol s) = True"
| "smooth (Integer k) = True"
| "smooth PiC = True"
| "smooth (Add a b) = (smooth a \<and> smooth b)"
| "smooth (Mul a b) = (smooth a \<and> smooth b)"
| "smooth (Neg a) = smooth a"
| "smooth (PowN a k) = smooth a"
| "smooth (Sin a) = smooth a"
| "smooth (Cos a) = smooth a"
| "smooth (Exp a) = smooth a"
| "smooth (Sqrt a) = False"
| "smooth (Inv a) = False"

definition diff_sound :: "engine \<Rightarrow> bool" where
  "diff_sound E \<longleftrightarrow>
     (\<forall>e x \<rho>. smooth e \<longrightarrow>
        ((\<lambda>t. eval (\<rho>(x := t)) e) has_real_derivative eval \<rho> (diff E e x)) (at (\<rho> x)))"

text \<open>
  The determinant of a square matrix of reals, given as the list of its rows, by cofactor
  expansion along the last column.
\<close>

definition minor :: "'a list list \<Rightarrow> nat \<Rightarrow> 'a list list" where
  "minor M i = map butlast (take i M @ drop (Suc i) M)"

fun cofactor_expansion :: "nat \<Rightarrow> real list list \<Rightarrow> real" where
  "cofactor_expansion 0 M = 1"
| "cofactor_expansion (Suc k) M =
     (\<Sum>i\<leftarrow>[0..<Suc k]. (- 1) ^ (i + k) * last (M ! i) * cofactor_expansion k (minor M i))"

definition determinant :: "real list list \<Rightarrow> real" where
  "determinant M = cofactor_expansion (length M) M"

definition square :: "'a list list \<Rightarrow> bool" where
  "square M \<longleftrightarrow> (\<forall>row \<in> set M. length row = length M)"

definition det_sound :: "engine \<Rightarrow> bool" where
  "det_sound E \<longleftrightarrow>
     (\<forall>M \<rho>. square M \<longrightarrow> eval \<rho> (det E M) = determinant (map (map (eval \<rho>)) M))"

definition simplify_sound :: "engine \<Rightarrow> bool" where
  "simplify_sound E \<longleftrightarrow> (\<forall>e \<rho>. eval \<rho> (simplify E e) = eval \<rho> e)"






section \<open>A reference engine\<close>

text \<open>
  Differentiation by the rules of calculus, the determinant by the same cofactor
  expansion on expressions, a simplifier that leaves the expression as it is, and an
  integrator that answers with a value supplied beforehand (a test double).
\<close>

fun rules_diff :: "expr \<Rightarrow> string \<Rightarrow> expr" where
  "rules_diff (Symbol s) x = (if s = x then Integer 1 else Integer 0)"
| "rules_diff (Integer k) x = Integer 0"
| "rules_diff PiC x = Integer 0"
| "rules_diff (Add a b) x = Add (rules_diff a x) (rules_diff b x)"
| "rules_diff (Mul a b) x = Add (Mul (rules_diff a x) b) (Mul a (rules_diff b x))"
| "rules_diff (Neg a) x = Neg (rules_diff a x)"
| "rules_diff (PowN a k) x = Mul (Mul (Integer (int k)) (PowN a (k - 1))) (rules_diff a x)"
| "rules_diff (Sin a) x = Mul (Cos a) (rules_diff a x)"
| "rules_diff (Cos a) x = Mul (Neg (Sin a)) (rules_diff a x)"
| "rules_diff (Exp a) x = Mul (Exp a) (rules_diff a x)"
| "rules_diff (Sqrt a) x = Mul (rules_diff a x) (Inv (Mul (Integer 2) (Sqrt a)))"
| "rules_diff (Inv a) x = Neg (Mul (rules_diff a x) (Inv (PowN a 2)))"

fun sum_expr :: "expr list \<Rightarrow> expr" where
  "sum_expr [] = Integer 0"
| "sum_expr (x # xs) = Add x (sum_expr xs)"

fun cofactor_expr :: "nat \<Rightarrow> expr list list \<Rightarrow> expr" where
  "cofactor_expr 0 M = Integer 1"
| "cofactor_expr (Suc k) M =
     sum_expr (map (\<lambda>i. Mul (Mul (Integer ((- 1) ^ (i + k))) (last (M ! i)))
                            (cofactor_expr k (minor M i))) [0..<Suc k])"

definition reference_engine :: "expr \<Rightarrow> engine" where
  "reference_engine v =
     \<lparr> diff = rules_diff, det = (\<lambda>M. cofactor_expr (length M) M), simplify = (\<lambda>e. e),
       integrate = (\<lambda>f limits. v) \<rparr>"

section \<open>The Jacobian and its determinant as real numbers\<close>

text \<open>
  The symbols an expression mentions; the variables \<open>r, phi0, ..., phi(d-2)\<close> of the
  \<open>d\<close>-dimensional parametrization; the matrix of the values of the partial derivatives;
  and the volume element of spherical coordinates,
  \<open>r^(d-1) sin(phi0)^(d-2) sin(phi1)^(d-3) ... sin(phi(d-3))\<close>.
\<close>

fun vars :: "expr \<Rightarrow> string set" where
  "vars (Symbol s) = {s}"
| "vars (Integer k) = {}"
| "vars PiC = {}"
| "vars (Add a b) = vars a \<union> vars b"
| "vars (Mul a b) = vars a \<union> vars b"
| "vars (Neg a) = vars a"
| "vars (PowN a k) = vars a"
| "vars (Sin a) = vars a"
| "vars (Cos a) = vars a"
| "vars (Exp a) = vars a"
| "vars (Sqrt a) = vars a"
| "vars (Inv a) = vars a"

definition syms_of :: "nat \<Rightarrow> string list" where
  "syms_of d = ''r'' # map phi_name [0..<d - 1]"

definition real_jacobian :: "env \<Rightarrow> nat \<Rightarrow> real list list" where
  "real_jacobian \<rho> d =
     map (\<lambda>x. map (\<lambda>s. eval \<rho> (rules_diff x s)) (syms_of d)) (parametrization d)"

definition sphere_det :: "env \<Rightarrow> nat \<Rightarrow> real" where
  "sphere_det \<rho> d = \<rho> ''r'' ^ (d - 1) * (\<Prod>j<d - 2. sin (\<rho> (phi_name j)) ^ (d - 2 - j))"

text \<open>
  The determinant as the specification writes it,
  \<open>r^k sin(phi0)^(k-2) sin(phi1)^(k-3) ...\<close>, with \<open>r^k\<close> where the volume element has
  \<open>r^(k-1)\<close>.
\<close>

definition claimed_det :: "env \<Rightarrow> nat \<Rightarrow> real" where
  "claimed_det \<rho> k = \<rho> ''r'' ^ k * (\<Prod>j<k - 2. sin (\<rho> (phi_name j)) ^ (k - 2 - j))"

section \<open>Primitives for the Gaussian integral\<close>





section \<open>Symbol names\<close>

lemma digit_char_inj: "a < 10 \<Longrightarrow> b < 10 \<Longrightarrow> digit_char a = digit_char b \<Longrightarrow> a = b"
proof -
  assume a: "a < 10" and b: "b < 10" and e: "digit_char a = digit_char b"
  have d: "distinct ''0123456789''" by simp
  have "a < length ''0123456789''" "b < length ''0123456789''" using a b by simp_all
  with d e show "a = b" unfolding digit_char_def by (simp only: nth_eq_iff_index_eq)
qed

lemma str_small: "k < 10 \<Longrightarrow> str k = [digit_char k]"
  by (simp add: str.simps)

lemma str_big: "\<not> k < 10 \<Longrightarrow> str k = str (k div 10) @ [digit_char (k mod 10)]"
  by (subst str.simps) simp

lemma str_nonempty: "str k \<noteq> []"
  by (cases "k < 10") (simp_all add: str_small str_big)

lemma str_inj: "str a = str b \<Longrightarrow> a = b"
proof (induction a arbitrary: b rule: str.induct)
  case (1 a)
  show ?case
  proof (cases "a < 10")
    case True
    show ?thesis
    proof (cases "b < 10")
      case b: True
      with True "1.prems" show ?thesis by (simp add: str_small digit_char_inj)
    next
      case b: False
      with True "1.prems" str_nonempty[of "b div 10"] show ?thesis
        by (simp add: str_small str_big)
    qed
  next
    case False
    show ?thesis
    proof (cases "b < 10")
      case b: True
      with False "1.prems" str_nonempty[of "a div 10"] show ?thesis
        by (simp add: str_small str_big)
    next
      case b: False
      with False "1.prems" have e1: "str (a div 10) = str (b div 10)"
        and e2: "digit_char (a mod 10) = digit_char (b mod 10)"
        by (simp_all add: str_big)
      from "1.IH"[OF False e1] have "a div 10 = b div 10" .
      moreover from e2 have "a mod 10 = b mod 10" by (simp add: digit_char_inj)
      ultimately show ?thesis by (metis div_mult_mod_eq)
    qed
  qed
qed

lemma phi_name_inj: "phi_name a = phi_name b \<longleftrightarrow> a = b"
  by (auto simp: phi_name_def dest: str_inj)

lemma phi_name_not_r: "phi_name a \<noteq> ''r''"
  by (simp add: phi_name_def)

lemma str_0: "str 0 = ''0''"
  by (simp add: str.simps digit_char_def)

lemma phi_name_0: "phi_name 0 = ''phi0''"
  by (simp add: phi_name_def str_0)

lemma init_Inr:
  "1 \<le> k \<Longrightarrow> init k = Inr \<lparr> n = k, r = ''r'', phis = symbols_phi0 (max 1 (nat (k - 1))) \<rparr>"
proof -
  assume k: "1 \<le> k"
  have one: "symbols_phi0 1 = [''phi0'']" by (simp add: symbols_phi0_def phi_name_0)
  show ?thesis
  proof (cases "k = 1")
    case True
    then show ?thesis using one by (simp add: init_def)
  next
    case False
    with k have "max 1 (nat (k - 1)) = nat (k - 1)" by simp
    with k False show ?thesis by (simp add: init_def)
  qed
qed

lemma length_split_last: "xs \<noteq> [] \<Longrightarrow> length (split_last phi xs) = Suc (length xs)"
  by (simp add: split_last_def)

lemma loop_step:
  assumes "length xs = Suc i"
  shows "xs[i := a] @ [b] = butlast xs @ [a, b]" and "xs ! i = last xs"
proof -
  from assms have ne: "xs \<noteq> []" by auto
  then have xs: "xs = butlast xs @ [last xs]" by simp
  have lb: "length (butlast xs) = i" using assms by simp
  show "xs ! i = last xs" using assms ne by (simp add: last_conv_nth)
  have "xs[i := a] = (butlast xs @ [last xs])[i := a]" using xs by simp
  also have "\<dots> = butlast xs @ [a]" using lb by (simp add: list_update_append)
  finally show "xs[i := a] @ [b] = butlast xs @ [a, b]" by simp
qed

lemma spherical_loop_foldl:
  "length xs = Suc i \<Longrightarrow> m \<le> length ps \<Longrightarrow>
   spherical_loop ps [i..<m] xs = Inr (foldl (\<lambda>ys j. split_last (ps ! j) ys) xs [i..<m])"
proof (induction "m - i" arbitrary: i xs)
  case 0
  then show ?case by simp
next
  case (Suc d)
  then have lt: "i < m" by simp
  have up: "[i..<m] = i # [Suc i..<m]" using lt by (simp add: upt_conv_Cons)
  let ?xs' = "split_last (ps ! i) xs"
  have step: "xs[i := Mul (xs ! i) (Cos (Symbol (ps ! i)))] @ [Mul (xs ! i) (Sin (Symbol (ps ! i)))] = ?xs'"
    using loop_step[OF Suc.prems(1)] by (simp add: split_last_def)
  have len: "length ?xs' = Suc (Suc i)"
    using Suc.prems(1) by (simp add: split_last_def)
  have "d = m - Suc i" using Suc.hyps(2) by simp
  from Suc.hyps(1)[OF this len Suc.prems(2)]
  show ?case using lt Suc.prems step by (simp add: up Let_def)
qed

lemma foldl_split_cong:
  "(\<And>j. j \<in> set js \<Longrightarrow> f j = g j) \<Longrightarrow>
   foldl (\<lambda>ys j. split_last (f j) ys) xs js = foldl (\<lambda>ys j. split_last (g j) ys) xs js"
  by (induction js arbitrary: xs) simp_all

lemma length_foldl_split:
  "xs \<noteq> [] \<Longrightarrow> length (foldl (\<lambda>ys j. split_last (f j) ys) xs js) = length xs + length js"
proof (induction js arbitrary: xs)
  case Nil
  then show ?case by simp
next
  case (Cons j js)
  have "split_last (f j) xs \<noteq> []" by (simp add: split_last_def)
  from Cons.IH[OF this] Cons.prems show ?case by (simp add: length_split_last)
qed

lemma cartesian_to_spherical_init:
  assumes k: "1 \<le> k" and i: "init k = Inr self"
  shows "cartesian_to_spherical self = Inr (parametrization (nat k))"
proof -
  let ?m = "max 1 (nat (k - 1))"
  have self: "self = \<lparr> n = k, r = ''r'', phis = symbols_phi0 ?m \<rparr>"
    using init_Inr[OF k] i by simp
  have ps: "phis self = phi_name 0 # map phi_name [1..<?m]"
    by (simp add: self symbols_phi0_def upt_conv_Cons)
  have le: "nat (k - 1) \<le> length (phis self)" by (simp add: self symbols_phi0_def)
  have nth: "\<And>j. j \<in> set [1..<nat (k - 1)] \<Longrightarrow> phis self ! j = phi_name j"
    by (simp add: self symbols_phi0_def)
  have "cartesian_to_spherical self =
      spherical_loop (phis self) [1..<nat (k - 1)] base_coords"
    by (simp add: cartesian_to_spherical_def ps base_coords_def phi_name_0) (simp add: self)
  also have "\<dots> = Inr (foldl (\<lambda>ys j. split_last (phis self ! j) ys) base_coords [1..<nat (k - 1)])"
    by (rule spherical_loop_foldl) (simp_all add: base_coords_def le)
  also have "\<dots> = Inr (foldl (\<lambda>ys j. split_last (phi_name j) ys) base_coords [1..<nat (k - 1)])"
    using foldl_split_cong[of "[1..<nat (k - 1)]" "\<lambda>j. phis self ! j" phi_name base_coords] nth
    by simp
  also have "\<dots> = Inr (parametrization (nat k))"
    using k by (simp add: parametrization_def nat_diff_distrib)
  finally show ?thesis .
qed

lemma length_parametrization: "length (parametrization k) = max 2 k"
  by (simp add: parametrization_def length_foldl_split base_coords_def)

text \<open>
  Claim C4. For every dimension \<open>k \<ge> 1\<close>, \<open>_cartesian_to_spherical\<close> returns the sequence
  built from \<open>[r cos phi0, r sin phi0]\<close> by splitting the last coordinate once for each
  \<open>i = 1, ..., k - 2\<close>; it has \<open>k\<close> components for \<open>k \<ge> 2\<close> and two for \<open>k = 1\<close>.
\<close>
theorem parametrization_built_by_splitting:
  assumes "1 \<le> k" and "init k = Inr self"
  shows "cartesian_to_spherical self = Inr (parametrization (nat k)) \<and>
         length (parametrization (nat k)) = (if k = 1 then 2 else nat k)"
  using assms cartesian_to_spherical_init[OF assms] by (auto simp: length_parametrization)

lemma cos_sin_split: "(a * cos t)\<^sup>2 + (a * sin t)\<^sup>2 = (a::real)\<^sup>2"
proof -
  have "(a * c)\<^sup>2 + (a * s)\<^sup>2 = a\<^sup>2 * (c\<^sup>2 + s\<^sup>2)" for c s :: real
    by (simp add: power_mult_distrib distrib_left)
  from this[of "cos t" "sin t"] show ?thesis by simp
qed

lemma sumsq_split_last:
  "xs \<noteq> [] \<Longrightarrow> (\<Sum>x\<leftarrow>split_last phi xs. (eval \<rho> x)\<^sup>2) = (\<Sum>x\<leftarrow>xs. (eval \<rho> x)\<^sup>2)"
proof -
  assume ne: "xs \<noteq> []"
  let ?l = "eval \<rho> (last xs)" and ?c = "cos (\<rho> phi)" and ?s = "sin (\<rho> phi)"
  have e: "(?l * ?c)\<^sup>2 + (?l * ?s)\<^sup>2 = ?l\<^sup>2" by (rule cos_sin_split)
  have "(\<Sum>x\<leftarrow>split_last phi xs. (eval \<rho> x)\<^sup>2) =
        (\<Sum>x\<leftarrow>butlast xs. (eval \<rho> x)\<^sup>2) + ((?l * ?c)\<^sup>2 + (?l * ?s)\<^sup>2)"
    by (simp add: split_last_def)
  also have "\<dots> = (\<Sum>x\<leftarrow>butlast xs @ [last xs]. (eval \<rho> x)\<^sup>2)"
    by (simp add: e)
  finally show ?thesis using ne by simp
qed

lemma sumsq_foldl_split:
  "xs \<noteq> [] \<Longrightarrow>
   (\<Sum>x\<leftarrow>foldl (\<lambda>ys j. split_last (f j) ys) xs js. (eval \<rho> x)\<^sup>2) = (\<Sum>x\<leftarrow>xs. (eval \<rho> x)\<^sup>2)"
proof (induction js arbitrary: xs)
  case Nil
  then show ?case by simp
next
  case (Cons j js)
  have "split_last (f j) xs \<noteq> []" by (simp add: split_last_def)
  from Cons.IH[OF this] Cons.prems show ?case by (simp add: sumsq_split_last)
qed

lemma sumsq_parametrization: "(\<Sum>x\<leftarrow>parametrization k. (eval \<rho> x)\<^sup>2) = (\<rho> ''r'')\<^sup>2"
proof -
  let ?a = "\<rho> ''r''" and ?c = "cos (\<rho> ''phi0'')" and ?s = "sin (\<rho> ''phi0'')"
  have "(\<Sum>x\<leftarrow>parametrization k. (eval \<rho> x)\<^sup>2) = (\<Sum>x\<leftarrow>base_coords. (eval \<rho> x)\<^sup>2)"
    unfolding parametrization_def by (rule sumsq_foldl_split) (simp add: base_coords_def)
  also have "\<dots> = (?a * ?c)\<^sup>2 + (?a * ?s)\<^sup>2"
    by (simp add: base_coords_def)
  also have "\<dots> = ?a\<^sup>2" by (rule cos_sin_split)
  finally show ?thesis .
qed

text \<open>
  Claim C10. For every dimension \<open>k \<ge> 1\<close> and every value of the symbols, the squares of the
  components of the parametrization add up to the square of \<open>r\<close>.
\<close>
theorem parametrization_on_sphere:
  assumes "1 \<le> k" and "init k = Inr self"
  shows "\<exists>xs. cartesian_to_spherical self = Inr xs \<and>
           (\<Sum>x\<leftarrow>xs. (eval \<rho> x)\<^sup>2) = (\<rho> (r self))\<^sup>2"
proof -
  have "r self = ''r''" using assms init_Inr[of k] by auto
  then show ?thesis
    using cartesian_to_spherical_init[OF assms] by (simp add: sumsq_parametrization)
qed

lemma phis_init:
  assumes "1 \<le> k" and "init k = Inr self"
  shows "phis self = symbols_phi0 (max 1 (nat (k - 1)))" and "r self = ''r''" and "n self = k"
  using assms init_Inr[of k] by auto

lemma length_phis_init:
  assumes "1 \<le> k" and "init k = Inr self"
  shows "length (phis self) = (if k = 1 then 1 else nat (k - 1))"
  using assms phis_init(1)[OF assms] by (auto simp: symbols_phi0_def)

lemma ops_succeed:
  assumes "1 \<le> k" and "init k = Inr self"
  shows "jacobian E self =
           Inr (map (\<lambda>x. map (\<lambda>s. diff E x s) (r self # phis self)) (parametrization (nat k)))"
    and "jacobian_det E self =
           Inr (simplify E (det E (map (\<lambda>x. map (\<lambda>s. diff E x s) (r self # phis self))
                                      (parametrization (nat k)))))"
    and "\<exists>ls. limits_of_int self = Inr ls"
    and "\<exists>v. doit E self = Inr v"
proof -
  show j: "jacobian E self =
           Inr (map (\<lambda>x. map (\<lambda>s. diff E x s) (r self # phis self)) (parametrization (nat k)))"
    using cartesian_to_spherical_init[OF assms] by (simp add: jacobian_def)
  then show d: "jacobian_det E self =
           Inr (simplify E (det E (map (\<lambda>x. map (\<lambda>s. diff E x s) (r self # phis self))
                                      (parametrization (nat k)))))"
    by (simp add: jacobian_det_def)
  have ne: "phis self \<noteq> []"
    using length_phis_init[OF assms] assms(1) by (auto split: if_splits)
  then show l: "\<exists>ls. limits_of_int self = Inr ls" by (simp add: limits_of_int_def)
  from d l show "\<exists>v. doit E self = Inr v"
    by (auto simp: doit_def integrand_def Let_def)
qed

text \<open>
  Claim C7. Construction raises \<open>ValueError\<close> exactly when the dimension is less than one,
  so nothing can be queried after it; for every dimension \<open>k \<ge> 1\<close> construction succeeds
  and neither the parametrization, the Jacobian, its determinant nor \<open>doit\<close> raises an
  error of the module's own, whatever the engine.
\<close>
theorem construction_error_iff:
  "(init k = Inl ValueError \<longleftrightarrow> k < 1) \<and>
   (k < 1 \<longrightarrow> construct_and k op = Inl ValueError) \<and>
   (1 \<le> k \<longrightarrow>
      (\<exists>self. init k = Inr self \<and>
         (\<exists>xs. cartesian_to_spherical self = Inr xs) \<and>
         (\<exists>J. jacobian E self = Inr J) \<and>
         (\<exists>d. jacobian_det E self = Inr d) \<and>
         (\<exists>v. doit E self = Inr v)))"
proof (intro conjI impI)
  show "init k = Inl ValueError \<longleftrightarrow> k < 1" by (simp add: init_def)
  show "construct_and k op = Inl ValueError" if "k < 1"
    using that by (simp add: construct_and_def init_def)
  show "\<exists>self. init k = Inr self \<and>
         (\<exists>xs. cartesian_to_spherical self = Inr xs) \<and>
         (\<exists>J. jacobian E self = Inr J) \<and>
         (\<exists>d. jacobian_det E self = Inr d) \<and>
         (\<exists>v. doit E self = Inr v)" if k: "1 \<le> k"
  proof -
    obtain self where s: "init k = Inr self" using init_Inr[OF k] by blast
    show ?thesis
      using s cartesian_to_spherical_init[OF k s] ops_succeed[OF k s] by auto
  qed
qed

theorem construction_error_iff_witness:
  "init 0 = Inl ValueError \<and>
   construct_and 0 (doit (reference_engine PiC)) = Inl ValueError \<and>
   (\<exists>self. init 3 = Inr self \<and>
         (\<exists>xs. cartesian_to_spherical self = Inr xs) \<and>
         (\<exists>J. jacobian (reference_engine PiC) self = Inr J) \<and>
         (\<exists>d. jacobian_det (reference_engine PiC) self = Inr d) \<and>
         (\<exists>v. doit (reference_engine PiC) self = Inr v))"
  using construction_error_iff[of 0 "doit (reference_engine PiC)" "reference_engine PiC"]
        construction_error_iff[of 3 "doit (reference_engine PiC)" "reference_engine PiC"]
  by simp

lemma last_phis_init:
  assumes "1 \<le> k" and "init k = Inr self"
  shows "last (phis self) = phi_name (nat (k - 2))"
    and "butlast (phis self) = map phi_name [0..<nat (k - 2)]"
proof -
  let ?m = "max 1 (nat (k - 1))"
  have m: "?m = Suc (nat (k - 2))" using assms(1) by auto
  have ps: "phis self = map phi_name [0..<nat (k - 2)] @ [phi_name (nat (k - 2))]"
    using phis_init(1)[OF assms] by (simp only: m symbols_phi0_def upt_Suc_append) simp
  show "last (phis self) = phi_name (nat (k - 2))" by (simp add: ps)
  show "butlast (phis self) = map phi_name [0..<nat (k - 2)]" by (simp add: ps)
qed

lemma distinct_symbols_phi0: "distinct (symbols_phi0 m)"
  by (simp add: symbols_phi0_def distinct_map inj_on_def phi_name_inj)

lemma r_not_in_symbols_phi0: "''r'' \<notin> set (symbols_phi0 m)"
proof
  assume "''r'' \<in> set (symbols_phi0 m)"
  then obtain a where "phi_name a = ''r''" by (auto simp: symbols_phi0_def)
  then show False by (simp add: phi_name_not_r)
qed

lemma limits_init:
  assumes "1 \<le> k" and "init k = Inr self"
  shows "limits_of_int self =
           Inr ((''r'', Integer 0, Oo)
                # (phi_name (nat (k - 2)), Integer 0, Fin (Mul (Integer 2) PiC))
                # map (\<lambda>i. (phi_name i, Integer 0, Fin PiC)) [0..<nat (k - 2)])"
proof -
  have ne: "phis self \<noteq> []"
    using length_phis_init[OF assms] assms(1) by (auto split: if_splits)
  show ?thesis
    using ne phis_init(2)[OF assms] last_phis_init[OF assms]
    by (simp add: limits_of_int_def comp_def)
qed

lemma limit_variables:
  assumes "1 \<le> k" and "init k = Inr self" and "limits_of_int self = Inr ls"
  shows "distinct (map fst ls)" and "set (map fst ls) = set (r self # phis self)"
proof -
  have ne: "phis self \<noteq> []"
    using length_phis_init[OF assms(1,2)] assms(1) by (auto split: if_splits)
  have ls: "map fst ls = r self # last (phis self) # butlast (phis self)"
    using assms(3) ne by (auto simp: limits_of_int_def comp_def)
  have d: "distinct (r self # phis self)"
    using phis_init(1,2)[OF assms(1,2)] distinct_symbols_phi0 r_not_in_symbols_phi0 by simp
  have sp: "phis self = butlast (phis self) @ [last (phis self)]" using ne by simp
  have "set (phis self) = set (last (phis self) # butlast (phis self))"
    by (subst sp) auto
  then show "set (map fst ls) = set (r self # phis self)" by (simp add: ls)
  have "distinct (butlast (phis self) @ [last (phis self)])" using d sp by simp
  then have "distinct (last (phis self) # butlast (phis self))" by simp
  moreover have "r self \<notin> set (last (phis self) # butlast (phis self))"
    using d \<open>set (phis self) = set (last (phis self) # butlast (phis self))\<close> by auto
  ultimately show "distinct (map fst ls)" by (simp add: ls)
qed

text \<open>
  Claim C6. For every dimension \<open>k \<ge> 1\<close>, \<open>doit\<close> hands the engine's \<open>integrate\<close> the
  integrand \<open>exp(-r^2)\<close> times the simplified determinant and one range per variable, in
  this order: \<open>r\<close> over \<open>[0, oo)\<close>, the last angular symbol over \<open>[0, 2 pi]\<close>, then \<open>phi0\<close>
  up to the last but one, each over \<open>[0, pi]\<close>.
\<close>
theorem doit_limits_and_integrand:
  assumes "1 \<le> k" and "init k = Inr self"
  shows "\<exists>d ls. jacobian_det E self = Inr d \<and> limits_of_int self = Inr ls \<and>
           ls = (''r'', Integer 0, Oo)
                # (phi_name (nat (k - 2)), Integer 0, Fin (Mul (Integer 2) PiC))
                # map (\<lambda>i. (phi_name i, Integer 0, Fin PiC)) [0..<nat (k - 2)] \<and>
           distinct (map fst ls) \<and> set (map fst ls) = set (r self # phis self) \<and>
           last (phis self) = phi_name (nat (k - 2)) \<and>
           doit E self =
             Inr (let int = integrate E (Mul (Exp (Neg (PowN (Symbol ''r'') 2))) d) ls
                  in if k = 1 then Sqrt int else int)"
proof -
  obtain d where d: "jacobian_det E self = Inr d" using ops_succeed(2)[OF assms] by blast
  let ?ls = "(''r'', Integer 0, Oo)
                # (phi_name (nat (k - 2)), Integer 0, Fin (Mul (Integer 2) PiC))
                # map (\<lambda>i. (phi_name i, Integer 0, Fin PiC)) [0..<nat (k - 2)]"
  have l: "limits_of_int self = Inr ?ls" by (rule limits_init[OF assms])
  have "doit E self =
             Inr (let int = integrate E (Mul (Exp (Neg (PowN (Symbol ''r'') 2))) d) ?ls
                  in if k = 1 then Sqrt int else int)"
    using d l phis_init(2,3)[OF assms] by (simp add: doit_def integrand_def Let_def)
  then show ?thesis
    using d l limit_variables[OF assms l] last_phis_init(1)[OF assms] by blast
qed

text \<open>
  Claim C9. For every dimension \<open>k \<ge> 1\<close> the tuple of angular symbols is not empty, at the
  start of iteration \<open>i\<close> of the parametrization loop \<open>i\<close> is an index of the coordinate list
  and of the angular symbols, so no access is out of range; for \<open>k = 1\<close> the one angular
  symbol \<open>phi0\<close> gets the range \<open>[0, 2 pi]\<close>.
\<close>
theorem sequence_accesses_in_bounds:
  assumes "1 \<le> k" and "init k = Inr self"
  shows "phis self \<noteq> [] \<and>
         (\<exists>xs. cartesian_to_spherical self = Inr xs) \<and>
         (\<exists>ls. limits_of_int self = Inr ls) \<and>
         (\<forall>i. 1 \<le> i \<and> i < nat (k - 1) \<longrightarrow>
            i < length (phis self) \<and>
            (\<exists>ys. spherical_loop (phis self) [1..<i] base_coords = Inr ys \<and> i < length ys)) \<and>
         (k = 1 \<longrightarrow>
            phis self = [''phi0''] \<and>
            limits_of_int self =
              Inr [(''r'', Integer 0, Oo), (''phi0'', Integer 0, Fin (Mul (Integer 2) PiC))])"
proof (intro conjI allI impI)
  show ne: "phis self \<noteq> []"
    using length_phis_init[OF assms] assms(1) by (auto split: if_splits)
  show "\<exists>xs. cartesian_to_spherical self = Inr xs"
    using cartesian_to_spherical_init[OF assms] by simp
  show "\<exists>ls. limits_of_int self = Inr ls" using ne by (simp add: limits_of_int_def)
next
  fix i :: nat
  assume i: "1 \<le> i \<and> i < nat (k - 1)"
  then show il: "i < length (phis self)" using length_phis_init[OF assms] by (simp split: if_splits)
  have "spherical_loop (phis self) [1..<i] base_coords =
          Inr (foldl (\<lambda>ys j. split_last (phis self ! j) ys) base_coords [1..<i])"
    by (rule spherical_loop_foldl) (use il in \<open>simp_all add: base_coords_def\<close>)
  moreover have "length (foldl (\<lambda>ys j. split_last (phis self ! j) ys) base_coords [1..<i]) = Suc i"
    using i by (simp add: length_foldl_split base_coords_def)
  ultimately show "\<exists>ys. spherical_loop (phis self) [1..<i] base_coords = Inr ys \<and> i < length ys"
    by simp
next
  assume k1: "k = 1"
  show "phis self = [''phi0'']"
    using phis_init(1)[OF assms] k1 by (simp add: symbols_phi0_def phi_name_0)
  show "limits_of_int self =
              Inr [(''r'', Integer 0, Oo), (''phi0'', Integer 0, Fin (Mul (Integer 2) PiC))]"
    using limits_init[OF assms] k1 by (simp add: phi_name_0)
qed

theorem sequence_accesses_in_bounds_witness:
  "init 1 = Inr \<lparr>n = 1, r = ''r'', phis = [''phi0'']\<rparr> \<and>
   limits_of_int \<lparr>n = 1, r = ''r'', phis = [''phi0'']\<rparr> =
     Inr [(''r'', Integer 0, Oo), (''phi0'', Integer 0, Fin (Mul (Integer 2) PiC))] \<and>
   init 4 = Inr \<lparr>n = 4, r = ''r'', phis = [''phi0'', ''phi1'', ''phi2'']\<rparr> \<and>
   (\<exists>ys. spherical_loop [''phi0'', ''phi1'', ''phi2''] [1..<2] base_coords = Inr ys \<and> 2 < length ys)"
proof -
  have i1: "init 1 = Inr \<lparr>n = 1, r = ''r'', phis = [''phi0'']\<rparr>" by code_simp
  have i4: "init 4 = Inr \<lparr>n = 4, r = ''r'', phis = [''phi0'', ''phi1'', ''phi2'']\<rparr>" by code_simp
  have k1: "(1::int) \<le> 1" and k4: "(1::int) \<le> 4" by simp_all
  from sequence_accesses_in_bounds[OF k4 i4]
  have "\<forall>i. 1 \<le> i \<and> i < nat (4 - 1) \<longrightarrow>
            (\<exists>ys. spherical_loop [''phi0'', ''phi1'', ''phi2''] [1..<i] base_coords = Inr ys \<and> i < length ys)"
    by simp
  then have "1 \<le> (2::nat) \<and> 2 < nat (4 - 1) \<longrightarrow>
     (\<exists>ys. spherical_loop [''phi0'', ''phi1'', ''phi2''] [1..<2] base_coords = Inr ys \<and> 2 < length ys)"
    by (rule spec)
  then have "\<exists>ys. spherical_loop [''phi0'', ''phi1'', ''phi2''] [1..<2] base_coords = Inr ys \<and> 2 < length ys"
    by simp
  then show ?thesis
    using i1 i4 sequence_accesses_in_bounds[OF k1 i1] by simp
qed

theorem parametrization_built_by_splitting_witness:
  "init 4 = Inr \<lparr>n = 4, r = ''r'', phis = [''phi0'', ''phi1'', ''phi2'']\<rparr> \<and>
   cartesian_to_spherical \<lparr>n = 4, r = ''r'', phis = [''phi0'', ''phi1'', ''phi2'']\<rparr> =
     Inr (parametrization 4) \<and>
   length (parametrization 4) = 4 \<and>
   init 1 = Inr \<lparr>n = 1, r = ''r'', phis = [''phi0'']\<rparr> \<and>
   cartesian_to_spherical \<lparr>n = 1, r = ''r'', phis = [''phi0'']\<rparr> = Inr (parametrization 1) \<and>
   length (parametrization 1) = 2"
proof -
  have i1: "init 1 = Inr \<lparr>n = 1, r = ''r'', phis = [''phi0'']\<rparr>" by code_simp
  have i4: "init 4 = Inr \<lparr>n = 4, r = ''r'', phis = [''phi0'', ''phi1'', ''phi2'']\<rparr>" by code_simp
  have k1: "(1::int) \<le> 1" and k4: "(1::int) \<le> 4" by simp_all
  show ?thesis
    using i1 i4 parametrization_built_by_splitting[OF k1 i1]
      parametrization_built_by_splitting[OF k4 i4]
    by simp
qed

theorem parametrization_on_sphere_witness:
  "init 3 = Inr \<lparr>n = 3, r = ''r'', phis = [''phi0'', ''phi1'']\<rparr> \<and>
   (\<exists>xs. cartesian_to_spherical \<lparr>n = 3, r = ''r'', phis = [''phi0'', ''phi1'']\<rparr> = Inr xs \<and>
      (\<Sum>x\<leftarrow>xs. (eval (\<lambda>s. 2) x)\<^sup>2) = 4)"
proof -
  have i: "init 3 = Inr \<lparr>n = 3, r = ''r'', phis = [''phi0'', ''phi1'']\<rparr>" by code_simp
  have k: "(1::int) \<le> 3" by simp
  show ?thesis
    using i parametrization_on_sphere[OF k i, of "\<lambda>s. 2"] by simp
qed

theorem doit_limits_and_integrand_witness:
  "init 4 = Inr \<lparr>n = 4, r = ''r'', phis = [''phi0'', ''phi1'', ''phi2'']\<rparr> \<and>
   limits_of_int \<lparr>n = 4, r = ''r'', phis = [''phi0'', ''phi1'', ''phi2'']\<rparr> =
     Inr [(''r'', Integer 0, Oo), (''phi2'', Integer 0, Fin (Mul (Integer 2) PiC)),
          (''phi0'', Integer 0, Fin PiC), (''phi1'', Integer 0, Fin PiC)] \<and>
   (\<exists>d. jacobian_det (reference_engine PiC) \<lparr>n = 4, r = ''r'', phis = [''phi0'', ''phi1'', ''phi2'']\<rparr> = Inr d \<and>
      doit (reference_engine PiC) \<lparr>n = 4, r = ''r'', phis = [''phi0'', ''phi1'', ''phi2'']\<rparr> =
        Inr (integrate (reference_engine PiC) (Mul (Exp (Neg (PowN (Symbol ''r'') 2))) d)
          [(''r'', Integer 0, Oo), (''phi2'', Integer 0, Fin (Mul (Integer 2) PiC)),
           (''phi0'', Integer 0, Fin PiC), (''phi1'', Integer 0, Fin PiC)]))"
proof -
  have i: "init 4 = Inr \<lparr>n = 4, r = ''r'', phis = [''phi0'', ''phi1'', ''phi2'']\<rparr>" by code_simp
  have k: "(1::int) \<le> 4" by simp
  from doit_limits_and_integrand[OF k i, of "reference_engine PiC"]
  obtain d ls where d: "jacobian_det (reference_engine PiC) \<lparr>n = 4, r = ''r'', phis = [''phi0'', ''phi1'', ''phi2'']\<rparr> = Inr d"
    and l: "limits_of_int \<lparr>n = 4, r = ''r'', phis = [''phi0'', ''phi1'', ''phi2'']\<rparr> = Inr ls"
    and ls: "ls = (''r'', Integer 0, Oo)
                # (phi_name (nat (4 - 2)), Integer 0, Fin (Mul (Integer 2) PiC))
                # map (\<lambda>i. (phi_name i, Integer 0, Fin PiC)) [0..<nat (4 - 2)]"
    and v: "doit (reference_engine PiC) \<lparr>n = 4, r = ''r'', phis = [''phi0'', ''phi1'', ''phi2'']\<rparr> =
             Inr (let int = integrate (reference_engine PiC) (Mul (Exp (Neg (PowN (Symbol ''r'') 2))) d) ls
                  in if (4::int) = 1 then Sqrt int else int)"
    by blast
  have ls': "ls = [(''r'', Integer 0, Oo), (''phi2'', Integer 0, Fin (Mul (Integer 2) PiC)),
          (''phi0'', Integer 0, Fin PiC), (''phi1'', Integer 0, Fin PiC)]"
  proof -
    have "(''r'', Integer 0, Oo)
                # (phi_name (nat (4 - 2)), Integer 0, Fin (Mul (Integer 2) PiC))
                # map (\<lambda>i. (phi_name i, Integer 0, Fin PiC)) [0..<nat (4 - 2)] =
          [(''r'', Integer 0, Oo), (''phi2'', Integer 0, Fin (Mul (Integer 2) PiC)),
          (''phi0'', Integer 0, Fin PiC), (''phi1'', Integer 0, Fin PiC)]"
      by code_simp
    then show ?thesis using ls by simp
  qed
  show ?thesis using i d l v unfolding ls' by (simp add: Let_def)
qed

section \<open>Differentiation by rules is differentiation\<close>

lemma rules_diff_deriv:
  "smooth e \<Longrightarrow>
   ((\<lambda>t. eval (\<rho>(x := t)) e) has_real_derivative eval (\<rho>(x := s)) (rules_diff e x)) (at s)"
proof (induction e arbitrary: s)
  case (Symbol v)
  then show ?case by (cases "v = x") simp_all
next
  case (PowN e k)
  from PowN.prems have "smooth e" by simp
  from DERIV_power[OF PowN.IH[OF this, of s], where n = k] show ?case by (simp add: mult_ac)
qed (auto intro!: derivative_eq_intros)

lemma rules_diff_sound: "diff_sound (reference_engine v)"
  unfolding diff_sound_def
proof (intro allI impI)
  fix e x \<rho>
  assume "smooth e"
  from rules_diff_deriv[OF this, of \<rho> x "\<rho> x"]
  show "((\<lambda>t. eval (\<rho>(x := t)) e) has_real_derivative
          eval \<rho> (diff (reference_engine v) e x)) (at (\<rho> x))"
    by (simp add: reference_engine_def)
qed

lemma diff_sound_eval:
  assumes "diff_sound E" and "smooth e"
  shows "eval \<rho> (diff E e x) = eval \<rho> (rules_diff e x)"
proof -
  have a: "((\<lambda>t. eval (\<rho>(x := t)) e) has_real_derivative eval \<rho> (diff E e x)) (at (\<rho> x))"
    using assms by (simp add: diff_sound_def)
  have b: "((\<lambda>t. eval (\<rho>(x := t)) e) has_real_derivative eval \<rho> (rules_diff e x)) (at (\<rho> x))"
    using rules_diff_deriv[OF assms(2), of \<rho> x "\<rho> x"] by simp
  from DERIV_unique[OF a b] show ?thesis .
qed

lemma rules_diff_fresh: "x \<notin> vars e \<Longrightarrow> eval \<rho> (rules_diff e x) = 0"
  by (induction e) auto

lemma parametrization_Suc:
  "2 \<le> d \<Longrightarrow> parametrization (Suc d) = split_last (phi_name (d - 1)) (parametrization d)"
proof -
  assume d: "2 \<le> d"
  then obtain m where m: "d = Suc (Suc m)" by (metis Suc_le_D numeral_2_eq_2 Suc_le_mono)
  show ?thesis by (simp add: parametrization_def m)
qed

lemma parametrization_nonempty: "parametrization d \<noteq> []"
  using length_parametrization[of d] by auto

section \<open>Cofactor expansion\<close>

lemma minor_snoc_lt: "i < length A \<Longrightarrow> minor (A @ [c]) i = minor A i @ [butlast c]"
  by (simp add: minor_def)

lemma minor_snoc_eq: "minor (A @ [c]) (length A) = map butlast A"
  by (simp add: minor_def)

lemma length_minor: "i < length A \<Longrightarrow> length (minor A i) = length A - 1"
  by (simp add: minor_def)

lemma minus_one_double: "(- 1 :: real) ^ (d + d) = 1"
  by (metis mult_2 power_minus1_even)

lemma cof_snoc:
  assumes "length A = d"
  shows "cofactor_expansion (Suc d) (A @ [c]) =
           (\<Sum>i\<leftarrow>[0..<d]. (- 1) ^ (i + d) * last (A ! i) * cofactor_expansion d (minor A i @ [butlast c]))
           + last c * cofactor_expansion d (map butlast A)"
proof -
  let ?f = "\<lambda>i. (- 1) ^ (i + d) * last ((A @ [c]) ! i) * cofactor_expansion d (minor (A @ [c]) i)"
  let ?g = "\<lambda>i. (- 1) ^ (i + d) * last (A ! i) * cofactor_expansion d (minor A i @ [butlast c])"
  have m: "map ?f [0..<d] = map ?g [0..<d]"
    by (rule map_cong) (use assms in \<open>simp_all add: nth_append minor_snoc_lt\<close>)
  have e: "minor (A @ [c]) d = map butlast A" using minor_snoc_eq[of A c] assms by simp
  have c: "(A @ [c]) ! d = c" using assms by (simp add: nth_append)
  have "cofactor_expansion (Suc d) (A @ [c]) = sum_list (map ?f [0..<d]) + ?f d"
    by simp
  also have "\<dots> = sum_list (map ?g [0..<d]) + ?f d" by (simp only: m)
  also have "?f d = last c * cofactor_expansion d (map butlast A)"
    by (simp only: e c minus_one_double)
  finally show ?thesis .
qed

lemma cof_scale_last:
  "length A = d \<Longrightarrow> d < length b \<Longrightarrow>
   cofactor_expansion (Suc d) (A @ [map (\<lambda>v. v * k) b]) = k * cofactor_expansion (Suc d) (A @ [b])"
proof (induction d arbitrary: A b)
  case 0
  then have "b \<noteq> []" by auto
  then show ?case using 0 by (simp add: last_map)
next
  case (Suc d)
  have ne: "b \<noteq> []" using Suc.prems by auto
  have tm: "cofactor_expansion (Suc d) (minor A i @ [butlast (map (\<lambda>v. v * k) b)]) =
              k * cofactor_expansion (Suc d) (minor A i @ [butlast b])" if "i \<in> set [0..<Suc d]" for i
  proof -
    have "i < length A" using that Suc.prems by auto
    then have "length (minor A i) = d" using Suc.prems by (simp add: length_minor)
    moreover have "d < length (butlast b)" using Suc.prems by simp
    ultimately show ?thesis using Suc.IH[of "minor A i" "butlast b"] by (simp add: map_butlast)
  qed
  have "map (\<lambda>i. (- 1) ^ (i + Suc d) * last (A ! i) *
              cofactor_expansion (Suc d) (minor A i @ [butlast (map (\<lambda>v. v * k) b)])) [0..<Suc d]
      = map (\<lambda>i. k * ((- 1) ^ (i + Suc d) * last (A ! i) *
              cofactor_expansion (Suc d) (minor A i @ [butlast b]))) [0..<Suc d]"
    by (rule map_cong) (simp_all only: tm, simp_all)
  then have s: "(\<Sum>i\<leftarrow>[0..<Suc d]. (- 1) ^ (i + Suc d) * last (A ! i) *
              cofactor_expansion (Suc d) (minor A i @ [butlast (map (\<lambda>v. v * k) b)]))
      = k * (\<Sum>i\<leftarrow>[0..<Suc d]. (- 1) ^ (i + Suc d) * last (A ! i) *
              cofactor_expansion (Suc d) (minor A i @ [butlast b]))"
    by (simp only: sum_list_const_mult)
  have l: "last (map (\<lambda>v. v * k) b) = last b * k" using ne by (simp add: last_map)
  show ?case
    unfolding cof_snoc[OF Suc.prems(1)] s l by (simp add: algebra_simps)
qed

lemma cof_two_rows:
  assumes "length A = d"
  shows "cofactor_expansion (Suc (Suc d)) (map (\<lambda>row. row @ [0]) A @ [u @ [p], w @ [q]]) =
           q * cofactor_expansion (Suc d) (A @ [u]) - p * cofactor_expansion (Suc d) (A @ [w])"
proof -
  let ?A2 = "map (\<lambda>row. row @ [0]) A @ [u @ [p]]"
  have len: "length ?A2 = Suc d" using assms by simp
  have z: "map (\<lambda>i. (- 1) ^ (i + Suc d) * last (?A2 ! i) *
             cofactor_expansion (Suc d) (minor ?A2 i @ [butlast (w @ [q])])) [0..<d]
         = map (\<lambda>i. 0) [0..<d]"
    by (rule map_cong) (use assms in \<open>simp_all add: nth_append\<close>)
  have b: "map butlast ?A2 = A @ [u]" by (simp add: comp_def)
  have m: "minor ?A2 d = A"
    using minor_snoc_eq[of "map (\<lambda>row. row @ [0]) A" "u @ [p]"] assms by (simp add: comp_def)
  have nth: "?A2 ! d = u @ [p]" using assms by (simp add: nth_append)
  have "cofactor_expansion (Suc (Suc d)) (?A2 @ [w @ [q]]) =
        (\<Sum>i\<leftarrow>[0..<Suc d]. (- 1) ^ (i + Suc d) * last (?A2 ! i) *
             cofactor_expansion (Suc d) (minor ?A2 i @ [butlast (w @ [q])]))
        + last (w @ [q]) * cofactor_expansion (Suc d) (map butlast ?A2)"
    by (rule cof_snoc[OF len])
  also have "\<dots> = (- 1) ^ (d + Suc d) * p * cofactor_expansion (Suc d) (A @ [w])
                   + q * cofactor_expansion (Suc d) (A @ [u])"
    unfolding b by (simp only: upt_Suc_append[OF le0] map_append sum_list_append z)
      (simp add: m nth del: cofactor_expansion.simps)
  finally show ?thesis by simp
qed

section \<open>The Jacobian of the parametrization, dimension by dimension\<close>

lemma syms_of_Suc: "2 \<le> d \<Longrightarrow> syms_of (Suc d) = syms_of d @ [phi_name (d - 1)]"
proof -
  assume "2 \<le> d"
  then obtain m where m: "d = Suc (Suc m)" by (metis Suc_le_D numeral_2_eq_2 Suc_le_mono)
  show ?thesis by (simp add: syms_of_def m)
qed

lemma phi_fresh: "phi_name (d - 1) \<notin> set (syms_of d)"
  by (auto simp: syms_of_def phi_name_inj phi_name_not_r)

lemma parametrization_2: "parametrization 2 = base_coords"
  by (simp add: parametrization_def)

lemma syms_of_2: "syms_of 2 = [''r'', ''phi0'']"
  by (simp add: syms_of_def phi_name_0)

lemma vars_parametrization:
  "2 \<le> d \<Longrightarrow> x \<in> set (parametrization d) \<Longrightarrow> vars x \<subseteq> set (syms_of d)"
proof (induction d arbitrary: x rule: nat_induct_at_least)
  case base
  then show ?case by (auto simp: parametrization_2 syms_of_2 base_coords_def)
next
  case (Suc d)
  let ?X = "parametrization d" and ?p = "phi_name (d - 1)"
  have ne: "?X \<noteq> []" by (rule parametrization_nonempty)
  have sub: "set (syms_of d) \<subseteq> set (syms_of (Suc d))" using syms_of_Suc[OF Suc.hyps] by auto
  have p: "?p \<in> set (syms_of (Suc d))" using syms_of_Suc[OF Suc.hyps] by auto
  have l: "vars (last ?X) \<subseteq> set (syms_of d)" using Suc.IH[of "last ?X"] ne by simp
  from Suc.prems have "x \<in> set (butlast ?X) \<or> x = Mul (last ?X) (Cos (Symbol ?p))
      \<or> x = Mul (last ?X) (Sin (Symbol ?p))"
    by (auto simp: parametrization_Suc[OF Suc.hyps] split_last_def)
  then show ?case
  proof (elim disjE)
    assume "x \<in> set (butlast ?X)"
    then have "x \<in> set ?X" by (rule in_set_butlastD)
    from Suc.IH[OF this] sub show ?thesis by blast
  next
    assume "x = Mul (last ?X) (Cos (Symbol ?p))"
    then show ?thesis using l sub p by auto
  next
    assume "x = Mul (last ?X) (Sin (Symbol ?p))"
    then show ?thesis using l sub p by auto
  qed
qed

lemma diff_fresh_parametrization:
  "2 \<le> d \<Longrightarrow> x \<in> set (parametrization d) \<Longrightarrow> eval \<rho> (rules_diff x (phi_name (d - 1))) = 0"
  using vars_parametrization[of d x] phi_fresh[of d] by (intro rules_diff_fresh) blast

lemma real_jacobian_Suc:
  assumes d: "2 \<le> d"
  defines "p \<equiv> phi_name (d - 1)"
  shows "real_jacobian \<rho> (Suc d) =
     map (\<lambda>row. row @ [0]) (butlast (real_jacobian \<rho> d)) @
     [map (\<lambda>v. v * cos (\<rho> p)) (last (real_jacobian \<rho> d))
        @ [- (eval \<rho> (last (parametrization d)) * sin (\<rho> p))],
      map (\<lambda>v. v * sin (\<rho> p)) (last (real_jacobian \<rho> d))
        @ [eval \<rho> (last (parametrization d)) * cos (\<rho> p)]]"
proof -
  let ?X = "parametrization d" and ?S = "syms_of d"
  let ?D = "\<lambda>x s. eval \<rho> (rules_diff x s)"
  let ?L = "last ?X"
  have ne: "?X \<noteq> []" by (rule parametrization_nonempty)
  have J: "real_jacobian \<rho> d = map (\<lambda>x. map (?D x) ?S) ?X" by (simp add: real_jacobian_def)
  have lastJ: "last (real_jacobian \<rho> d) = map (?D ?L) ?S" using ne by (simp add: J last_map)
  have butJ: "butlast (real_jacobian \<rho> d) = map (\<lambda>x. map (?D x) ?S) (butlast ?X)"
    by (simp add: J map_butlast)
  have fresh: "?D x p = 0" if "x \<in> set ?X" for x
    using diff_fresh_parametrization[OF d that] by (simp add: p_def)
  have Lf: "?D ?L p = 0" using fresh[of ?L] ne by simp
  have pS: "p \<notin> set ?S" unfolding p_def by (rule phi_fresh)
  have rows: "map (\<lambda>x. map (?D x) (?S @ [p])) (butlast ?X)
            = map (\<lambda>row. row @ [0]) (map (\<lambda>x. map (?D x) ?S) (butlast ?X))"
    unfolding map_map comp_def
    by (rule map_cong) (auto dest: in_set_butlastD simp: fresh)
  have cosrow: "map (?D (Mul ?L (Cos (Symbol p)))) ?S = map (\<lambda>v. v * cos (\<rho> p)) (map (?D ?L) ?S)"
    unfolding map_map comp_def
    by (rule map_cong) (use pS in auto)
  have sinrow: "map (?D (Mul ?L (Sin (Symbol p)))) ?S = map (\<lambda>v. v * sin (\<rho> p)) (map (?D ?L) ?S)"
    unfolding map_map comp_def
    by (rule map_cong) (use pS in auto)
  have "real_jacobian \<rho> (Suc d) =
      map (\<lambda>x. map (?D x) (?S @ [p])) (butlast ?X @ [Mul ?L (Cos (Symbol p)), Mul ?L (Sin (Symbol p))])"
    by (simp add: real_jacobian_def parametrization_Suc[OF d] syms_of_Suc[OF d] split_last_def p_def)
  also have "\<dots> = map (\<lambda>x. map (?D x) (?S @ [p])) (butlast ?X) @
      [map (?D (Mul ?L (Cos (Symbol p)))) ?S @ [?D (Mul ?L (Cos (Symbol p))) p],
       map (?D (Mul ?L (Sin (Symbol p)))) ?S @ [?D (Mul ?L (Sin (Symbol p))) p]]"
    by simp
  also have "\<dots> = map (\<lambda>row. row @ [0]) (butlast (real_jacobian \<rho> d)) @
     [map (\<lambda>v. v * cos (\<rho> p)) (last (real_jacobian \<rho> d)) @ [- (eval \<rho> ?L * sin (\<rho> p))],
      map (\<lambda>v. v * sin (\<rho> p)) (last (real_jacobian \<rho> d)) @ [eval \<rho> ?L * cos (\<rho> p)]]"
    unfolding rows cosrow sinrow lastJ butJ using Lf by simp
  finally show ?thesis .
qed

lemma length_real_jacobian: "length (real_jacobian \<rho> d) = max 2 d"
  by (simp add: real_jacobian_def length_parametrization)

lemma length_syms_of: "length (syms_of d) = d" if "1 \<le> d"
  using that by (simp add: syms_of_def)

lemma length_last_real_jacobian: "1 \<le> d \<Longrightarrow> length (last (real_jacobian \<rho> d)) = d"
  using parametrization_nonempty[of d]
  by (simp add: real_jacobian_def last_map length_syms_of)

lemma cos_sin_factor: "a * (cos t * cos t) + a * (sin t * sin t) = (a::real)"
proof -
  have "c * c + s * s = 1 \<Longrightarrow> a * (c * c) + a * (s * s) = a" for c s :: real
    by (simp flip: distrib_left)
  from this[of "cos t" "sin t"] sin_cos_squared_add2[of t] show ?thesis
    by (simp add: power2_eq_square)
qed

lemma det_real_jacobian_Suc:
  assumes d: "2 \<le> d"
  shows "determinant (real_jacobian \<rho> (Suc d)) =
           eval \<rho> (last (parametrization d)) * determinant (real_jacobian \<rho> d)"
proof -
  obtain m where m: "d = Suc m" using d by (cases d) auto
  let ?J = "real_jacobian \<rho> d"
  let ?A = "butlast ?J" and ?b = "last ?J"
  let ?p = "phi_name (d - 1)"
  let ?l = "eval \<rho> (last (parametrization d))"
  let ?c = "cos (\<rho> ?p)" and ?s = "sin (\<rho> ?p)"
  have lenJ: "length ?J = d" using d by (simp add: length_real_jacobian)
  then have ne: "?J \<noteq> []" using d by auto
  have lenA: "length ?A = m" using lenJ m by simp
  have lenb: "m < length ?b" using length_last_real_jacobian[of d \<rho>] d m by simp
  have J: "?A @ [?b] = ?J" using ne by simp
  have "determinant (real_jacobian \<rho> (Suc d)) =
        cofactor_expansion (Suc (Suc m))
          (map (\<lambda>row. row @ [0]) ?A @
            [map (\<lambda>v. v * ?c) ?b @ [- (?l * ?s)], map (\<lambda>v. v * ?s) ?b @ [?l * ?c]])"
  proof -
    have "length (real_jacobian \<rho> (Suc d)) = Suc (Suc m)"
      using d by (simp add: length_real_jacobian m)
    then show ?thesis
      unfolding determinant_def by (simp only: real_jacobian_Suc[OF d])
  qed
  also have "\<dots> = ?l * ?c * cofactor_expansion (Suc m) (?A @ [map (\<lambda>v. v * ?c) ?b])
                   - (- (?l * ?s)) * cofactor_expansion (Suc m) (?A @ [map (\<lambda>v. v * ?s) ?b])"
    by (rule cof_two_rows[OF lenA])
  also have "\<dots> = ?l * ?c * (?c * cofactor_expansion (Suc m) (?A @ [?b]))
                   + ?l * ?s * (?s * cofactor_expansion (Suc m) (?A @ [?b]))"
    by (simp only: cof_scale_last[OF lenA lenb] minus_mult_left[symmetric] diff_minus_eq_add minus_minus mult_minus_left)
  also have "\<dots> = ?l * ?c * (?c * determinant ?J) + ?l * ?s * (?s * determinant ?J)"
  proof -
    have "cofactor_expansion (Suc m) (?A @ [?b]) = determinant ?J"
      unfolding J determinant_def lenJ by (simp only: m)
    then show ?thesis by (simp only:)
  qed
  also have "\<dots> = (?l * (?c * ?c) + ?l * (?s * ?s)) * determinant ?J"
    by (simp only: algebra_simps)
  also have "\<dots> = ?l * determinant ?J"
    by (simp only: cos_sin_factor)
  finally show ?thesis .
qed

lemma eval_last_parametrization:
  "2 \<le> d \<Longrightarrow> eval \<rho> (last (parametrization d)) = \<rho> ''r'' * (\<Prod>j<d - 1. sin (\<rho> (phi_name j)))"
proof (induction d rule: nat_induct_at_least)
  case base
  show ?case by (simp add: parametrization_2 base_coords_def phi_name_0)
next
  case (Suc d)
  obtain m where m: "d = Suc m" using Suc.hyps by (cases d) auto
  have "eval \<rho> (last (parametrization (Suc d))) =
          eval \<rho> (last (parametrization d)) * sin (\<rho> (phi_name (d - 1)))"
    by (simp add: parametrization_Suc[OF Suc.hyps] split_last_def)
  then show ?case using Suc.IH by (simp add: m)
qed

lemma det_real_jacobian_2: "determinant (real_jacobian \<rho> 2) = \<rho> ''r''"
  using cos_sin_factor[of "\<rho> ''r''" "\<rho> ''phi0''"]
  unfolding real_jacobian_def parametrization_2 syms_of_2 base_coords_def determinant_def
  by (simp add: minor_def numeral_2_eq_2)

lemma sphere_det_Suc:
  assumes "2 \<le> d"
  shows "sphere_det \<rho> (Suc d) =
          (\<rho> ''r'' * (\<Prod>j<d - 1. sin (\<rho> (phi_name j)))) * sphere_det \<rho> d"
proof -
  obtain m where m: "d = Suc (Suc m)" using assms by (metis Suc_le_D numeral_2_eq_2 Suc_le_mono)
  let ?s = "\<lambda>j. sin (\<rho> (phi_name j))"
  have "(\<Prod>j<Suc m. ?s j ^ (Suc m - j)) = (\<Prod>j<Suc m. ?s j * ?s j ^ (m - j))"
    by (rule prod.cong) (simp_all add: Suc_diff_le flip: power_Suc)
  also have "\<dots> = (\<Prod>j<Suc m. ?s j) * (\<Prod>j<Suc m. ?s j ^ (m - j))"
    by (rule prod.distrib)
  also have "(\<Prod>j<Suc m. ?s j ^ (m - j)) = (\<Prod>j<m. ?s j ^ (m - j))" by simp
  finally show ?thesis by (simp add: sphere_det_def m)
qed

lemma det_real_jacobian: "2 \<le> d \<Longrightarrow> determinant (real_jacobian \<rho> d) = sphere_det \<rho> d"
proof (induction d rule: nat_induct_at_least)
  case base
  show ?case by (simp add: det_real_jacobian_2 sphere_det_def)
next
  case (Suc d)
  show ?case
    by (simp only: det_real_jacobian_Suc[OF Suc.hyps] sphere_det_Suc[OF Suc.hyps]
        eval_last_parametrization[OF Suc.hyps] Suc.IH)
qed

section \<open>The engine's Jacobian and determinant\<close>

lemma smooth_foldl_split:
  "\<forall>x\<in>set xs. smooth x \<Longrightarrow> xs \<noteq> [] \<Longrightarrow>
   \<forall>x\<in>set (foldl (\<lambda>ys j. split_last (f j) ys) xs js). smooth x"
proof (induction js arbitrary: xs)
  case Nil
  then show ?case by simp
next
  case (Cons j js)
  have "\<forall>x\<in>set (split_last (f j) xs). smooth x"
    using Cons.prems by (auto simp: split_last_def dest: in_set_butlastD)
  moreover have "split_last (f j) xs \<noteq> []" by (simp add: split_last_def)
  ultimately show ?case using Cons.IH by simp
qed

lemma smooth_parametrization: "x \<in> set (parametrization d) \<Longrightarrow> smooth x"
  using smooth_foldl_split[of base_coords "\<lambda>j. phi_name j" "[1..<d - 1]"]
  by (simp add: parametrization_def base_coords_def)

lemma parametrization_max: "parametrization (max 2 d) = parametrization d"
  by (simp add: parametrization_def max_def)

lemma syms_init:
  assumes "1 \<le> k" and "init k = Inr self"
  shows "r self # phis self = syms_of (max 2 (nat k))"
proof -
  have "max 1 (nat (k - 1)) = max 2 (nat k) - 1" using assms(1) by auto
  then show ?thesis
    using phis_init[OF assms] by (simp add: syms_of_def symbols_phi0_def)
qed

lemma jacobian_eval:
  assumes k: "1 \<le> k" and i: "init k = Inr self" and E: "diff_sound E"
  shows "\<exists>J. jacobian E self = Inr J \<and> length J = max 2 (nat k) \<and> square J \<and>
             map (map (eval \<rho>)) J = real_jacobian \<rho> (max 2 (nat k))"
proof -
  let ?d = "max 2 (nat k)"
  let ?J = "map (\<lambda>x. map (\<lambda>s. diff E x s) (syms_of ?d)) (parametrization ?d)"
  have j: "jacobian E self = Inr ?J"
    using ops_succeed(1)[OF k i, of E] by (simp only: syms_init[OF k i] parametrization_max)
  have len: "length ?J = ?d" by (simp add: length_parametrization)
  have sq: "square ?J" by (simp add: square_def length_parametrization length_syms_of)
  have "map (map (eval \<rho>)) ?J = real_jacobian \<rho> ?d"
    unfolding real_jacobian_def map_map comp_def
    by (rule map_cong) (simp_all add: diff_sound_eval[OF E smooth_parametrization])
  with j len sq show ?thesis by blast
qed

lemma jacobian_det_eval:
  assumes k: "1 \<le> k" and i: "init k = Inr self"
    and E: "diff_sound E" "det_sound E" "simplify_sound E"
  shows "\<exists>d. jacobian_det E self = Inr d \<and> (\<forall>\<rho>. eval \<rho> d = sphere_det \<rho> (max 2 (nat k)))"
proof -
  obtain J where J: "jacobian E self = Inr J" "square J"
    and e: "\<And>\<rho>. map (map (eval \<rho>)) J = real_jacobian \<rho> (max 2 (nat k))"
  proof -
    obtain J where J: "jacobian E self = Inr J"
      using ops_succeed(1)[OF k i] by blast
    have "square J \<and> map (map (eval \<rho>)) J = real_jacobian \<rho> (max 2 (nat k))" for \<rho>
      using jacobian_eval[OF k i E(1), of \<rho>] J by auto
    with J that show thesis by blast
  qed
  have "eval \<rho> (simplify E (det E J)) = sphere_det \<rho> (max 2 (nat k))" for \<rho>
  proof -
    have "eval \<rho> (simplify E (det E J)) = eval \<rho> (det E J)"
      using E(3) by (simp add: simplify_sound_def)
    also have "\<dots> = determinant (map (map (eval \<rho>)) J)"
      using E(2) J(2) by (simp add: det_sound_def)
    also have "\<dots> = sphere_det \<rho> (max 2 (nat k))"
      by (simp only: e det_real_jacobian[of "max 2 (nat k)"] max.cobounded1)
    finally show ?thesis .
  qed
  then show ?thesis using J(1) by (simp add: jacobian_det_def)
qed

lemma eval_sum_expr: "eval \<rho> (sum_expr xs) = (\<Sum>x\<leftarrow>xs. eval \<rho> x)"
  by (induction xs) simp_all

lemma minor_map: "minor (map (map f) M) i = map (map f) (minor M i)"
  by (simp add: minor_def map_butlast take_map drop_map)

lemma eval_cofactor_expr:
  "k \<le> length M \<Longrightarrow> \<forall>row\<in>set M. k \<le> length row \<Longrightarrow>
   eval \<rho> (cofactor_expr k M) = cofactor_expansion k (map (map (eval \<rho>)) M)"
proof (induction k arbitrary: M)
  case 0
  show ?case by simp
next
  case (Suc k)
  have tm: "eval \<rho> (Mul (Mul (Integer ((- 1) ^ (i + k))) (last (M ! i))) (cofactor_expr k (minor M i)))
      = (- 1) ^ (i + k) * last (map (map (eval \<rho>)) M ! i) *
          cofactor_expansion k (minor (map (map (eval \<rho>)) M) i)" if "i \<in> set [0..<Suc k]" for i
  proof -
    have iM: "i < length M" using that Suc.prems(1) by auto
    then have "M ! i \<in> set M" by simp
    then have ne: "M ! i \<noteq> []" using Suc.prems(2) by fastforce
    have l1: "k \<le> length (minor M i)" using iM Suc.prems(1) by (simp add: length_minor)
    have l2: "\<forall>row\<in>set (minor M i). k \<le> length row"
    proof
      fix row assume "row \<in> set (minor M i)"
      then obtain row' where "row' \<in> set M" "row = butlast row'"
        by (auto simp: minor_def dest: in_set_takeD in_set_dropD)
      then show "k \<le> length row" using Suc.prems(2) by fastforce
    qed
    show ?thesis
      using Suc.IH[OF l1 l2] iM ne by (simp add: minor_map last_map)
  qed
  have "map (\<lambda>i. eval \<rho> (Mul (Mul (Integer ((- 1) ^ (i + k))) (last (M ! i))) (cofactor_expr k (minor M i)))) [0..<Suc k]
      = map (\<lambda>i. (- 1) ^ (i + k) * last (map (map (eval \<rho>)) M ! i) *
          cofactor_expansion k (minor (map (map (eval \<rho>)) M) i)) [0..<Suc k]"
    by (rule map_cong) (simp_all only: tm)
  then show ?case
    by (simp only: cofactor_expr.simps cofactor_expansion.simps eval_sum_expr map_map comp_def)
qed

lemma reference_det_sound: "det_sound (reference_engine v)"
  unfolding det_sound_def
proof (intro allI impI)
  fix M :: "expr list list" and \<rho> assume "square M"
  then have "\<forall>row\<in>set M. length M \<le> length row" by (simp add: square_def)
  from eval_cofactor_expr[OF order_refl this, of \<rho>]
  show "eval \<rho> (det (reference_engine v) M) = determinant (map (map (eval \<rho>)) M)"
    by (simp add: reference_engine_def determinant_def)
qed

lemma reference_simplify_sound: "simplify_sound (reference_engine v)"
  by (simp add: simplify_sound_def reference_engine_def)

text \<open>
  Claim C5. For every dimension \<open>k \<ge> 1\<close>, \<open>jacobian\<close> returns the matrix whose row \<open>i\<close>,
  column \<open>j\<close> is the engine's derivative of component \<open>i\<close> of the parametrization with
  respect to variable \<open>j\<close> of \<open>r, phi0, ..., phi(k-2)\<close> (\<open>r, phi0\<close> for \<open>k = 1\<close>); it is
  \<open>2 x 2\<close> for \<open>k = 1\<close> and \<open>k x k\<close> for \<open>k \<ge> 2\<close>; and with an engine that differentiates
  correctly each entry is the partial derivative of its component.
\<close>
theorem jacobian_partial_derivatives:
  assumes "1 \<le> k" and "init k = Inr self"
  shows "\<exists>J xs. jacobian E self = Inr J \<and> cartesian_to_spherical self = Inr xs \<and>
           r self # phis self = ''r'' # map phi_name [0..<(if k = 1 then 1 else nat k - 1)] \<and>
           length J = (if k = 1 then 2 else nat k) \<and>
           (\<forall>row\<in>set J. length row = (if k = 1 then 2 else nat k)) \<and>
           length xs = length J \<and>
           (\<forall>i<length xs. \<forall>j<length (r self # phis self).
              J ! i ! j = diff E (xs ! i) ((r self # phis self) ! j)) \<and>
           (diff_sound E \<longrightarrow>
              (\<forall>\<rho>. \<forall>i<length xs. \<forall>j<length (r self # phis self).
                 ((\<lambda>t. eval (\<rho>((r self # phis self) ! j := t)) (xs ! i))
                    has_real_derivative eval \<rho> (J ! i ! j)) (at (\<rho> ((r self # phis self) ! j)))))"
proof -
  let ?xs = "parametrization (nat k)" and ?syms = "r self # phis self"
  let ?J = "map (\<lambda>x. map (\<lambda>s. diff E x s) ?syms) ?xs"
  let ?m = "if k = 1 then 2 else nat k"
  have j: "jacobian E self = Inr ?J" by (rule ops_succeed(1)[OF assms])
  have c: "cartesian_to_spherical self = Inr ?xs" by (rule cartesian_to_spherical_init[OF assms])
  have s: "?syms = ''r'' # map phi_name [0..<(if k = 1 then 1 else nat k - 1)]"
    using phis_init(1,2)[OF assms] assms(1) by (auto simp: symbols_phi0_def nat_diff_distrib)
  have lx: "length ?xs = ?m" using assms(1) by (auto simp: length_parametrization)
  have ls: "length ?syms = ?m" using length_phis_init[OF assms] assms(1) by auto
  have rows: "\<forall>row\<in>set ?J. length row = ?m" using ls by auto
  have e1: "?J ! i ! j = diff E (?xs ! i) (?syms ! j)"
    if "i < length ?xs" and "j < length ?syms" for i j
    using that by (simp only: nth_map)
  then have ent: "\<forall>i<length ?xs. \<forall>j<length ?syms. ?J ! i ! j = diff E (?xs ! i) (?syms ! j)"
    by blast
  have der: "diff_sound E \<longrightarrow>
              (\<forall>\<rho>. \<forall>i<length ?xs. \<forall>j<length ?syms.
                 ((\<lambda>t. eval (\<rho>(?syms ! j := t)) (?xs ! i))
                    has_real_derivative eval \<rho> (?J ! i ! j)) (at (\<rho> (?syms ! j))))"
  proof (intro impI allI)
    fix \<rho> i j
    assume E: "diff_sound E" and i: "i < length ?xs" and jj: "j < length ?syms"
    have "?xs ! i \<in> set ?xs" using i by (rule nth_mem)
    then have "smooth (?xs ! i)" by (rule smooth_parametrization)
    then have "((\<lambda>t. eval (\<rho>(?syms ! j := t)) (?xs ! i))
                    has_real_derivative eval \<rho> (diff E (?xs ! i) (?syms ! j))) (at (\<rho> (?syms ! j)))"
      using E by (simp add: diff_sound_def)
    moreover have "?J ! i ! j = diff E (?xs ! i) (?syms ! j)" using i jj by (rule e1)
    ultimately show "((\<lambda>t. eval (\<rho>(?syms ! j := t)) (?xs ! i))
                    has_real_derivative eval \<rho> (?J ! i ! j)) (at (\<rho> (?syms ! j)))"
      by simp
  qed
  have lJ: "length ?J = ?m" using lx by simp
  show ?thesis
    apply (rule exI[of _ ?J], rule exI[of _ ?xs])
    using j c s lJ rows lx ent der by (simp only: simp_thms)
qed

theorem jacobian_partial_derivatives_witness:
  "init 3 = Inr \<lparr>n = 3, r = ''r'', phis = [''phi0'', ''phi1'']\<rparr> \<and>
   (\<exists>J. jacobian (reference_engine PiC) \<lparr>n = 3, r = ''r'', phis = [''phi0'', ''phi1'']\<rparr> = Inr J \<and>
      length J = 3 \<and>
      J ! 2 ! 1 = rules_diff (parametrization 3 ! 2) ''phi0'' \<and>
      ((\<lambda>t. eval ((\<lambda>s. 1)(''phi0'' := t)) (parametrization 3 ! 2))
          has_real_derivative eval (\<lambda>s. 1) (J ! 2 ! 1)) (at 1))"
proof -
  let ?self = "\<lparr>n = 3, r = ''r'', phis = [''phi0'', ''phi1'']\<rparr>"
  let ?E = "reference_engine PiC"
  have i: "init 3 = Inr ?self" by code_simp
  have k: "(1::int) \<le> 3" by simp
  from jacobian_partial_derivatives[OF k i, of ?E]
  obtain J xs where J: "jacobian ?E ?self = Inr J"
    and xs: "cartesian_to_spherical ?self = Inr xs"
    and len: "length J = (if (3::int) = 1 then 2 else nat 3)" "length xs = length J"
    and ent: "\<forall>i<length xs. \<forall>j<length (r ?self # phis ?self).
                J ! i ! j = diff ?E (xs ! i) ((r ?self # phis ?self) ! j)"
    and der: "diff_sound ?E \<longrightarrow>
              (\<forall>\<rho>. \<forall>i<length xs. \<forall>j<length (r ?self # phis ?self).
                 ((\<lambda>t. eval (\<rho>((r ?self # phis ?self) ! j := t)) (xs ! i))
                    has_real_derivative eval \<rho> (J ! i ! j)) (at (\<rho> ((r ?self # phis ?self) ! j))))"
    by blast
  have x: "xs = parametrization 3" using xs cartesian_to_spherical_init[OF k i] by simp
  have l3: "length J = 3" "length xs = 3" using len by simp_all
  have e: "J ! 2 ! 1 = rules_diff (parametrization 3 ! 2) ''phi0''"
    using ent l3 by (simp add: x reference_engine_def)
  have "((\<lambda>t. eval ((\<lambda>s. 1)((r ?self # phis ?self) ! 1 := t)) (xs ! 2))
          has_real_derivative eval (\<lambda>s. 1) (J ! 2 ! 1)) (at ((\<lambda>s. 1) ((r ?self # phis ?self) ! 1)))"
  proof -
    from der rules_diff_sound[of PiC]
    have "\<forall>\<rho>. \<forall>i<length xs. \<forall>j<length (r ?self # phis ?self).
                 ((\<lambda>t. eval (\<rho>((r ?self # phis ?self) ! j := t)) (xs ! i))
                    has_real_derivative eval \<rho> (J ! i ! j)) (at (\<rho> ((r ?self # phis ?self) ! j)))"
      by (rule mp)
    then have "\<forall>i<length xs. \<forall>j<length (r ?self # phis ?self).
                 ((\<lambda>t. eval ((\<lambda>s. 1)((r ?self # phis ?self) ! j := t)) (xs ! i))
                    has_real_derivative eval (\<lambda>s. 1) (J ! i ! j)) (at ((\<lambda>s. 1) ((r ?self # phis ?self) ! j)))"
      by (rule spec)
    moreover have "2 < length xs" using l3 by simp
    ultimately have "\<forall>j<length (r ?self # phis ?self).
                 ((\<lambda>t. eval ((\<lambda>s. 1)((r ?self # phis ?self) ! j := t)) (xs ! 2))
                    has_real_derivative eval (\<lambda>s. 1) (J ! 2 ! j)) (at ((\<lambda>s. 1) ((r ?self # phis ?self) ! j)))"
      by blast
    moreover have "1 < length (r ?self # phis ?self)" by simp
    ultimately show ?thesis by blast
  qed
  then have "((\<lambda>t. eval ((\<lambda>s. 1)(''phi0'' := t)) (parametrization 3 ! 2))
          has_real_derivative eval (\<lambda>s. 1) (J ! 2 ! 1)) (at 1)"
    by (simp add: x)
  with i J l3 e show ?thesis by blast
qed

lemma sphere_det_2: "sphere_det \<rho> 2 = \<rho> ''r''" "sphere_det \<rho> (Suc (Suc 0)) = \<rho> ''r''"
  by (simp_all add: sphere_det_def)


lemma max_2_nat: "max 2 (nat 1) = 2" "max 2 (nat 2) = 2" "max 2 (nat 3) = 3"
  by simp_all

lemma construct_jacobian_det:
  assumes "1 \<le> k" and "diff_sound E" and "det_sound E" and "simplify_sound E"
  shows "\<exists>d. construct_and k (jacobian_det E) = Inr d \<and>
             (\<forall>\<rho>. eval \<rho> d = sphere_det \<rho> (max 2 (nat k)))"
proof -
  obtain self where s: "init k = Inr self" using init_Inr[OF assms(1)] by blast
  from jacobian_det_eval[OF assms(1) s assms(2-4)] show ?thesis
    by (simp add: construct_and_def s)
qed



text \<open>
  Claim C2 as the specification words it does not hold: in dimension 2 the determinant is
  \<open>r\<close>, which is 2 at \<open>r = 2\<close>, where the claimed \<open>r^2\<close> is 4.
\<close>
theorem claimed_det_refuted:
  "\<exists>d. construct_and 2 (jacobian_det (reference_engine PiC)) = Inr d \<and>
       eval ((\<lambda>s. 0)(''r'' := 2)) d = 2 \<and>
       claimed_det ((\<lambda>s. 0)(''r'' := 2)) 2 = 4"
proof -
  have "(1::int) \<le> 2" by simp
  from construct_jacobian_det[OF this rules_diff_sound[of PiC] reference_det_sound[of PiC]
      reference_simplify_sound[of PiC]]
  obtain d where "construct_and 2 (jacobian_det (reference_engine PiC)) = Inr d"
    and "\<forall>\<rho>. eval \<rho> d = sphere_det \<rho> 2" by (auto simp only: max_2_nat)
  then show ?thesis by (simp add: sphere_det_2 claimed_det_def)
qed

text \<open>
  Claim C2, amended. With an engine that differentiates, takes determinants and simplifies
  correctly, for every dimension \<open>k \<ge> 2\<close> the value of what \<open>jacobian_det\<close> returns is
  \<open>r^(k-1) sin(phi0)^(k-2) sin(phi1)^(k-3) ... sin(phi(k-3))^1\<close>, and \<open>r\<close> for \<open>k = 1\<close>.
\<close>
theorem jacobian_det_closed_form:
  assumes "1 \<le> k" and "init k = Inr self"
    and "diff_sound E" and "det_sound E" and "simplify_sound E"
  shows "\<exists>d. jacobian_det E self = Inr d \<and>
           (\<forall>\<rho>. eval \<rho> d =
              (if k = 1 then \<rho> ''r''
               else \<rho> ''r'' ^ (nat k - 1) *
                    (\<Prod>j<nat k - 2. sin (\<rho> (phi_name j)) ^ (nat k - 2 - j))))"
proof (cases "k = 1")
  case True
  then show ?thesis using jacobian_det_eval[OF assms] by (simp add: sphere_det_2)
next
  case False
  then have "max 2 (nat k) = nat k" using assms(1) by simp
  then show ?thesis using jacobian_det_eval[OF assms] False by (simp add: sphere_det_def)
qed

theorem jacobian_det_closed_form_witness:
  "init 4 = Inr \<lparr>n = 4, r = ''r'', phis = [''phi0'', ''phi1'', ''phi2'']\<rparr> \<and>
   (\<exists>d. jacobian_det (reference_engine PiC) \<lparr>n = 4, r = ''r'', phis = [''phi0'', ''phi1'', ''phi2'']\<rparr> = Inr d \<and>
      (\<forall>\<rho>. eval \<rho> d = \<rho> ''r'' ^ 3 * ((sin (\<rho> ''phi0''))\<^sup>2 * sin (\<rho> ''phi1''))))"
proof -
  have i: "init 4 = Inr \<lparr>n = 4, r = ''r'', phis = [''phi0'', ''phi1'', ''phi2'']\<rparr>" by code_simp
  have k: "(1::int) \<le> 4" by simp
  have p1: "phi_name (Suc 0) = ''phi1''" by code_simp
  have "(\<Prod>j<2. sin (\<rho> (phi_name j)) ^ (2 - j)) = (sin (\<rho> ''phi0''))\<^sup>2 * sin (\<rho> ''phi1'')"
    for \<rho> :: env
    by (simp add: numeral_2_eq_2 phi_name_0 p1)
  then show ?thesis
    using i jacobian_det_closed_form[OF k i rules_diff_sound[of PiC] reference_det_sound[of PiC]
        reference_simplify_sound[of PiC]]
    by simp
qed

section \<open>The methods leave the instance as it is\<close>

lemma attribute_at:
  "a < length \<sigma> \<Longrightarrow> \<sigma> ! a = Instance i \<Longrightarrow> attribute f a (\<sigma> @ ext) = (Inr (f i), \<sigma> @ ext)"
  by (simp add: attribute_def nth_append)

lemma attribute_at0:
  "a < length \<sigma> \<Longrightarrow> \<sigma> ! a = Instance i \<Longrightarrow> attribute f a \<sigma> = (Inr (f i), \<sigma>)"
  by (simp add: attribute_def)

lemma bind_Inr: "m \<sigma> = (Inr v, \<sigma>') \<Longrightarrow> bind_st m f \<sigma> = f v \<sigma>'"
  by (simp add: bind_st_def)

lemma bind_Inl: "m \<sigma> = (Inl e, \<sigma>') \<Longrightarrow> bind_st m f \<sigma> = (Inl e, \<sigma>')"
  by (simp add: bind_st_def)

lemma spherical_loop_st_run:
  assumes "a < length \<sigma>" and "\<sigma> ! a = Instance i" and "x < length \<sigma>" and "x \<noteq> a"
    and "\<sigma> ! x = ExprList xs"
  shows "\<exists>ys. spherical_loop_st a x js \<sigma> =
                ((case spherical_loop (phis i) js xs of Inl e \<Rightarrow> Inl e | Inr zs \<Rightarrow> Inr ()),
                 \<sigma>[x := ExprList ys]) \<and>
              (\<forall>zs. spherical_loop (phis i) js xs = Inr zs \<longrightarrow> ys = zs)"
  using assms
proof (induction js arbitrary: \<sigma> xs)
  case Nil
  have "\<sigma>[x := ExprList xs] = \<sigma>" using Nil by (metis list_update_id)
  then show ?case by (intro exI[of _ xs]) (simp add: return_st_def)
next
  case (Cons j js)
  have at: "attribute phis a \<sigma>' = (Inr (phis i), \<sigma>')" if "a < length \<sigma>'" "\<sigma>' ! a = Instance i" for \<sigma>'
    using that by (rule attribute_at0)
  have ex: "exprs_at x \<sigma> = Some xs" using Cons.prems by (simp add: exprs_at_def)
  show ?case
  proof (cases "j < length xs \<and> j < length (phis i)")
    case False
    have id: "\<sigma>[x := ExprList xs] = \<sigma>" using Cons.prems by (metis list_update_id)
    have "spherical_loop_st a x (j # js) \<sigma> = (Inl IndexError, \<sigma>)"
      using False ex at[OF Cons.prems(1,2)]
      by (auto simp: bind_st_def getitem_def index_def)
    moreover have "spherical_loop (phis i) (j # js) xs = Inl IndexError"
      using False by auto
    ultimately show ?thesis using id by (intro exI[of _ xs]) (simp del: spherical_loop.simps)
  next
    case True
    let ?old = "xs ! j"
    let ?phi = "phis i ! j"
    let ?xs1 = "xs[j := Mul ?old (Cos (Symbol ?phi))]"
    let ?\<sigma>1 = "\<sigma>[x := ExprList ?xs1]"
    let ?xs2 = "?xs1 @ [Mul ?old (Sin (Symbol ?phi))]"
    let ?\<sigma>2 = "\<sigma>[x := ExprList ?xs2]"
    have a1: "a < length ?\<sigma>1" "?\<sigma>1 ! a = Instance i"
      using Cons.prems by simp_all
    have ex1: "exprs_at x ?\<sigma>1 = Some ?xs1" using Cons.prems by (simp add: exprs_at_def)
    have s2: "?\<sigma>1[x := ExprList ?xs2] = ?\<sigma>2" by simp
    have step: "spherical_loop_st a x (j # js) \<sigma> = spherical_loop_st a x js ?\<sigma>2"
      using True ex ex1 at[OF Cons.prems(1,2)] at[OF a1] s2
      by (simp add: bind_st_def getitem_def index_def setitem_def append_expr_def)
    have p2: "a < length ?\<sigma>2" "?\<sigma>2 ! a = Instance i" "x < length ?\<sigma>2" "?\<sigma>2 ! x = ExprList ?xs2"
      using Cons.prems by simp_all
    from Cons.IH[OF p2(1,2,3) Cons.prems(4) p2(4)]
    obtain ys where ys: "spherical_loop_st a x js ?\<sigma>2 =
                ((case spherical_loop (phis i) js ?xs2 of Inl e \<Rightarrow> Inl e | Inr zs \<Rightarrow> Inr ()),
                 ?\<sigma>2[x := ExprList ys])"
        "\<forall>zs. spherical_loop (phis i) js ?xs2 = Inr zs \<longrightarrow> ys = zs"
      by blast
    have pure: "spherical_loop (phis i) (j # js) xs = spherical_loop (phis i) js ?xs2"
      using True by (simp add: Let_def)
    have "?\<sigma>2[x := ExprList ys] = \<sigma>[x := ExprList ys]" by simp
    then show ?thesis
      using step ys pure by (intro exI[of _ ys]) (simp del: spherical_loop.simps)
  qed
qed

lemma cartesian_to_spherical_st_run:
  assumes a: "a < length \<sigma>" and i: "\<sigma> ! a = Instance i"
  shows "\<exists>ext. cartesian_to_spherical_st a \<sigma> = (cartesian_to_spherical i, \<sigma> @ ext)"
proof (cases "phis i")
  case Nil
  then have "cartesian_to_spherical_st a \<sigma> = (Inl IndexError, \<sigma>)"
    by (simp add: cartesian_to_spherical_st_def bind_st_def index_def attribute_at0[OF a i])
  then show ?thesis using Nil by (intro exI[of _ "[]"]) (simp add: cartesian_to_spherical_def)
next
  case (Cons phi0 rest)
  let ?base = "[Mul (Symbol (r i)) (Cos (Symbol phi0)), Mul (Symbol (r i)) (Sin (Symbol phi0))]"
  let ?\<sigma>1 = "\<sigma> @ [ExprList ?base]"
  let ?x = "length \<sigma>"
  let ?js = "[1..<nat (n i - 1)]"
  have p: "a < length ?\<sigma>1" "?\<sigma>1 ! a = Instance i" "?x < length ?\<sigma>1" "?x \<noteq> a"
    "?\<sigma>1 ! ?x = ExprList ?base"
    using a i by (simp_all add: nth_append)
  from spherical_loop_st_run[OF p, of ?js]
  obtain ys where ys: "spherical_loop_st a ?x ?js ?\<sigma>1 =
        ((case spherical_loop (phis i) ?js ?base of Inl e \<Rightarrow> Inl e | Inr zs \<Rightarrow> Inr ()),
         ?\<sigma>1[?x := ExprList ys])"
      "\<forall>zs. spherical_loop (phis i) ?js ?base = Inr zs \<longrightarrow> ys = zs"
    by blast
  have upd: "?\<sigma>1[?x := ExprList ys] = \<sigma> @ [ExprList ys]" by simp
  have pre: "cartesian_to_spherical_st a \<sigma> =
        bind_st (spherical_loop_st a ?x ?js) (\<lambda>_. read_exprs ?x) ?\<sigma>1"
    using Cons
    by (simp add: cartesian_to_spherical_st_def bind_st_def index_def alloc_def
        attribute_at0[OF a i] attribute_at[OF a i])
  have pure: "cartesian_to_spherical i = spherical_loop (phis i) ?js ?base"
    using Cons by (simp add: cartesian_to_spherical_def)
  show ?thesis
  proof (cases "spherical_loop (phis i) ?js ?base")
    case (Inl e)
    then show ?thesis
      using pre ys(1) upd pure by (intro exI[of _ "[ExprList ys]"]) (simp add: bind_st_def)
  next
    case (Inr zs)
    then have "ys = zs" using ys(2) by simp
    then show ?thesis
      using pre ys(1) upd pure Inr
      by (intro exI[of _ "[ExprList ys]"]) (simp add: bind_st_def read_exprs_def exprs_at_def)
  qed
qed

lemma jacobian_st_run:
  assumes a: "a < length \<sigma>" and i: "\<sigma> ! a = Instance i"
  shows "\<exists>ext. jacobian_st E a \<sigma> = (jacobian E i, \<sigma> @ ext)"
proof -
  let ?\<sigma>0 = "\<sigma> @ [SymList (phis i)]"
  let ?\<sigma>1 = "\<sigma> @ [SymList (r i # phis i)]"
  let ?s = "length \<sigma>"
  have a1: "a < length ?\<sigma>1" "?\<sigma>1 ! a = Instance i" using a i by (simp_all add: nth_append)
  from cartesian_to_spherical_st_run[OF a1]
  obtain ext where ext: "cartesian_to_spherical_st a ?\<sigma>1 = (cartesian_to_spherical i, ?\<sigma>1 @ ext)"
    by blast
  have ins: "insert_sym ?s 0 (r i) ?\<sigma>0 = (Inr (), ?\<sigma>1)"
    by (simp add: insert_sym_def syms_at_def)
  have pre: "jacobian_st E a \<sigma> =
      bind_st (cartesian_to_spherical_st a) (\<lambda>x_coords.
        bind_st (read_syms ?s) (\<lambda>ss.
          return_st (map (\<lambda>x. map (\<lambda>s. diff E x s) ss) x_coords))) ?\<sigma>1"
    using ins
    by (simp add: jacobian_st_def bind_st_def alloc_def attribute_at0[OF a i] attribute_at[OF a i])
  have rd: "read_syms ?s (?\<sigma>1 @ ext) = (Inr (r i # phis i), ?\<sigma>1 @ ext)"
    by (simp add: read_syms_def syms_at_def nth_append)
  show ?thesis
  proof (cases "cartesian_to_spherical i")
    case (Inl e)
    then show ?thesis using pre ext
      by (intro exI[of _ "SymList (r i # phis i) # ext"]) (simp add: bind_st_def jacobian_def)
  next
    case (Inr xs)
    then show ?thesis using pre ext rd
      by (intro exI[of _ "SymList (r i # phis i) # ext"])
         (simp add: bind_st_def jacobian_def return_st_def)
  qed
qed

lemma jacobian_det_st_run:
  assumes a: "a < length \<sigma>" and i: "\<sigma> ! a = Instance i"
  shows "\<exists>ext. jacobian_det_st E a \<sigma> = (jacobian_det E i, \<sigma> @ ext)"
proof -
  from jacobian_st_run[OF a i, of E]
  obtain ext where ext: "jacobian_st E a \<sigma> = (jacobian E i, \<sigma> @ ext)" by blast
  show ?thesis
    using ext by (intro exI[of _ ext])
      (simp add: jacobian_det_st_def jacobian_det_def bind_st_def return_st_def split: sum.splits)
qed

lemma append_limits_run:
  "l < length \<sigma> \<Longrightarrow> \<sigma> ! l = LimitList ls \<Longrightarrow>
   append_limits l ps \<sigma> =
     (Inr (), \<sigma>[l := LimitList (ls @ map (\<lambda>phi. (phi, Integer 0, Fin PiC)) ps)])"
proof (induction ps arbitrary: \<sigma> ls)
  case Nil
  then show ?case by (simp add: return_st_def) (metis list_update_id)
next
  case (Cons phi ps)
  let ?\<sigma>1 = "\<sigma>[l := LimitList (ls @ [(phi, Integer 0, Fin PiC)])]"
  have "l < length ?\<sigma>1" "?\<sigma>1 ! l = LimitList (ls @ [(phi, Integer 0, Fin PiC)])"
    using Cons.prems by simp_all
  from Cons.IH[OF this] show ?case
    using Cons.prems by (simp add: bind_st_def append_limit_def limits_at_def)
qed

lemma doit_st_run:
  assumes a: "a < length \<sigma>" and i: "\<sigma> ! a = Instance i"
  shows "\<exists>ext. doit_st E a \<sigma> = (doit E i, \<sigma> @ ext)"
proof (cases "phis i = []")
  case True
  then have "doit_st E a \<sigma> = (Inl IndexError, \<sigma>)"
    by (simp add: doit_st_def bind_st_def index_last_def attribute_at0[OF a i])
  then show ?thesis using True
    by (intro exI[of _ "[]"]) (simp add: doit_def limits_of_int_def)
next
  case False
  let ?first = "[(r i, Integer 0, Oo), (last (phis i), Integer 0, Fin (Mul (Integer 2) PiC))]"
  let ?lims = "?first @ map (\<lambda>phi. (phi, Integer 0, Fin PiC)) (butlast (phis i))"
  let ?\<sigma>A = "\<sigma> @ [LimitList ?first]"
  let ?\<sigma>B = "\<sigma> @ [LimitList ?lims]"
  let ?lx = "length \<sigma>"
  have app: "append_limits ?lx (butlast (phis i)) ?\<sigma>A = (Inr (), ?\<sigma>B)"
    using append_limits_run[where l = ?lx and \<sigma> = ?\<sigma>A and ls = ?first and ps = "butlast (phis i)"]
    by simp
  have p1: "a < length ?\<sigma>B" "?\<sigma>B ! a = Instance i" using a i by (simp_all add: nth_append)
  from jacobian_det_st_run[OF p1, of E]
  obtain ext where ext: "jacobian_det_st E a ?\<sigma>B = (jacobian_det E i, ?\<sigma>B @ ext)" by blast
  have a2: "attribute n a (?\<sigma>B @ ext) = (Inr (n i), ?\<sigma>B @ ext)"
    by (rule attribute_at[OF p1])
  have rd: "read_limits ?lx (?\<sigma>B @ ext) = (Inr ?lims, ?\<sigma>B @ ext)"
    by (simp add: read_limits_def limits_at_def nth_append)
  have pre: "doit_st E a \<sigma> =
     bind_st (jacobian_det_st E a) (\<lambda>d.
     bind_st (read_limits ?lx) (\<lambda>ls.
     bind_st (return_st (integrate E (Mul (Exp (Neg (PowN (Symbol (r i)) 2))) d) ls)) (\<lambda>int.
     bind_st (attribute n a) (\<lambda>k.
     return_st (if k = 1 then Sqrt int else int))))) ?\<sigma>B"
    using False app
    by (simp add: doit_st_def bind_st_def index_last_def alloc_def
        attribute_at0[OF a i] attribute_at[OF a i])
  have lim: "limits_of_int i = Inr ?lims" using False by (simp add: limits_of_int_def)
  show ?thesis
  proof (cases "jacobian_det E i")
    case (Inl e)
    then show ?thesis using pre ext lim
      by (intro exI[of _ "LimitList ?lims # ext"]) (simp add: bind_st_def doit_def integrand_def)
  next
    case (Inr d)
    then show ?thesis using pre ext lim rd a2
      by (intro exI[of _ "LimitList ?lims # ext"])
         (simp add: bind_st_def doit_def integrand_def return_st_def Let_def)
  qed
qed

lemma perform_run:
  assumes a: "a < length \<sigma>" and i: "\<sigma> ! a = Instance i"
  shows "\<exists>ext. perform E a q \<sigma> = (answer_of E i q, \<sigma> @ ext)"
proof (cases q)
  case Jacobian
  from jacobian_st_run[OF a i, of E] obtain ext where "jacobian_st E a \<sigma> = (jacobian E i, \<sigma> @ ext)"
    by blast
  then show ?thesis using Jacobian
    by (intro exI[of _ ext]) (simp add: bind_st_def return_st_def split: sum.splits)
next
  case Jacobian_det
  from jacobian_det_st_run[OF a i, of E]
  obtain ext where "jacobian_det_st E a \<sigma> = (jacobian_det E i, \<sigma> @ ext)" by blast
  then show ?thesis using Jacobian_det
    by (intro exI[of _ ext]) (simp add: bind_st_def return_st_def split: sum.splits)
next
  case Doit
  from doit_st_run[OF a i, of E] obtain ext where "doit_st E a \<sigma> = (doit E i, \<sigma> @ ext)"
    by blast
  then show ?thesis using Doit
    by (intro exI[of _ ext]) (simp add: bind_st_def return_st_def split: sum.splits)
qed

lemma perform_all_run:
  "a < length \<sigma> \<Longrightarrow> \<sigma> ! a = Instance i \<Longrightarrow>
   \<exists>ext. perform_all E a qs \<sigma> = (map (answer_of E i) qs, \<sigma> @ ext)"
proof (induction qs arbitrary: \<sigma>)
  case Nil
  then show ?case by simp
next
  case (Cons q qs)
  from perform_run[OF Cons.prems, of E q]
  obtain ext where e: "perform E a q \<sigma> = (answer_of E i q, \<sigma> @ ext)" by blast
  have "a < length (\<sigma> @ ext)" "(\<sigma> @ ext) ! a = Instance i"
    using Cons.prems by (simp_all add: nth_append)
  from Cons.IH[OF this]
  obtain ext' where "perform_all E a qs (\<sigma> @ ext) = (map (answer_of E i) qs, (\<sigma> @ ext) @ ext')"
    by blast
  then show ?case using e by (intro exI[of _ "ext @ ext'"]) simp
qed

lemma new_run:
  assumes "new k \<sigma> = (Inr a, \<sigma>0)"
  shows "\<exists>self. init k = Inr self \<and> a = length \<sigma> \<and> \<sigma>0 = \<sigma> @ [Instance self]"
  using assms by (auto simp: new_def alloc_def split: sum.splits)

text \<open>
  Claim C8. For every dimension \<open>k \<ge> 1\<close>, after construction the instance holds \<open>n = k\<close>,
  \<open>r\<close> and \<open>k - 1\<close> angular symbols (one for \<open>k = 1\<close>); any sequence of calls to \<open>jacobian\<close>,
  \<open>jacobian_det\<close> and \<open>doit\<close> only adds objects to the store, so the instance and every
  object that existed before are as they were; each call answers what the attributes set
  at construction determine; and a second \<open>doit\<close> answers as the first did.
\<close>
theorem instance_never_changes:
  assumes "1 \<le> k" and "new k \<sigma> = (Inr a, \<sigma>0)"
  shows "\<exists>self. init k = Inr self \<and> \<sigma>0 ! a = Instance self \<and>
           n self = k \<and> r self = ''r'' \<and>
           length (phis self) = (if k = 1 then 1 else nat (k - 1)) \<and>
           (\<exists>ext. snd (perform_all E a qs \<sigma>0) = \<sigma>0 @ ext) \<and>
           snd (perform_all E a qs \<sigma>0) ! a = Instance self \<and>
           fst (perform_all E a qs \<sigma>0) = map (answer_of E self) qs \<and>
           fst (doit_st E a (snd (perform_all E a qs \<sigma>0))) = doit E self \<and>
           fst (doit_st E a (snd (doit_st E a \<sigma>0))) = fst (doit_st E a \<sigma>0)"
proof -
  from new_run[OF assms(2)] obtain self where s: "init k = Inr self"
    and a: "a = length \<sigma>" and s0: "\<sigma>0 = \<sigma> @ [Instance self]" by blast
  have al: "a < length \<sigma>0" and ai: "\<sigma>0 ! a = Instance self" by (simp_all add: a s0)
  from perform_all_run[OF al ai, of E qs]
  obtain ext where ext: "perform_all E a qs \<sigma>0 = (map (answer_of E self) qs, \<sigma>0 @ ext)" by blast
  have al1: "a < length (\<sigma>0 @ ext)" and ai1: "(\<sigma>0 @ ext) ! a = Instance self"
    using al ai by (simp_all add: nth_append)
  from doit_st_run[OF al1 ai1, of E]
  obtain ext1 where d1: "doit_st E a (\<sigma>0 @ ext) = (doit E self, (\<sigma>0 @ ext) @ ext1)" by blast
  from doit_st_run[OF al ai, of E]
  obtain ext2 where d2: "doit_st E a \<sigma>0 = (doit E self, \<sigma>0 @ ext2)" by blast
  have al2: "a < length (\<sigma>0 @ ext2)" and ai2: "(\<sigma>0 @ ext2) ! a = Instance self"
    using al ai by (simp_all add: nth_append)
  from doit_st_run[OF al2 ai2, of E]
  obtain ext3 where d3: "doit_st E a (\<sigma>0 @ ext2) = (doit E self, (\<sigma>0 @ ext2) @ ext3)" by blast
  show ?thesis
    using s ai phis_init(2,3)[OF assms(1) s] length_phis_init[OF assms(1) s] ext ai1 d1 d2 d3
    by (intro exI[of _ self]) simp
qed

theorem instance_never_changes_witness:
  "new 3 [] = (Inr 0, [Instance \<lparr>n = 3, r = ''r'', phis = [''phi0'', ''phi1'']\<rparr>]) \<and>
   snd (perform_all (reference_engine PiC) 0 [Doit, Jacobian, Jacobian_det, Doit]
          [Instance \<lparr>n = 3, r = ''r'', phis = [''phi0'', ''phi1'']\<rparr>]) ! 0
     = Instance \<lparr>n = 3, r = ''r'', phis = [''phi0'', ''phi1'']\<rparr> \<and>
   fst (doit_st (reference_engine PiC) 0
          (snd (doit_st (reference_engine PiC) 0
                  [Instance \<lparr>n = 3, r = ''r'', phis = [''phi0'', ''phi1'']\<rparr>])))
     = fst (doit_st (reference_engine PiC) 0
              [Instance \<lparr>n = 3, r = ''r'', phis = [''phi0'', ''phi1'']\<rparr>])"
proof -
  let ?self = "\<lparr>n = 3, r = ''r'', phis = [''phi0'', ''phi1'']\<rparr>"
  have i: "init 3 = Inr ?self" by code_simp
  have nw: "new 3 [] = (Inr 0, [Instance ?self])" by (simp add: new_def i alloc_def)
  have k: "(1::int) \<le> 3" by simp
  show ?thesis
    using nw i instance_never_changes[OF k nw, of "reference_engine PiC"
        "[Doit, Jacobian, Jacobian_det, Doit]"]
    by simp
qed

section \<open>Integrals through primitives\<close>












section \<open>The integrals of the powers of the cosine\<close>











section \<open>The Gaussian integral\<close>
























section \<open>The value of \<open>doit\<close>\<close>









end
